theory Spec2Isabelle
  imports Main "HOL-Library.Word" "HOL-Library.Log_Nat"
begin

section \<open>JavaScript numbers\<close>

text \<open>
  Every number of \<^verbatim>\<open>server.js\<close> is an IEEE 754 binary64 value. Finite values are
  rationals; each arithmetic operation computes the exact rational result and rounds it
  to the nearest binary64 value, ties to the even significand. \<open>round64\<close> is that
  rounding on a non-negative magnitude: the exponent is the one that leaves a 53-bit
  significand, and never less than the subnormal exponent \<open>-1074\<close>.
\<close>

definition pow2 :: "int \<Rightarrow> rat" where
  "pow2 k = (if 0 \<le> k then 2 ^ nat k else 1 / 2 ^ nat (- k))"

definition ilog2 :: "rat \<Rightarrow> int" where
  "ilog2 a = (let (p, q) = quotient_of a; k = bitlen p - bitlen q
              in if pow2 k \<le> a then k else k - 1)"

definition round_half_even :: "rat \<Rightarrow> int" where
  "round_half_even r =
     (let f = \<lfloor>r\<rfloor>; d = r - of_int f
      in if d < 1 / 2 then f else if 1 / 2 < d then f + 1 else if even f then f else f + 1)"

definition round64 :: "rat \<Rightarrow> rat" where
  "round64 a =
     (if a = 0 then 0
      else let e = max (ilog2 a - 52) (- 1074)
           in of_int (round_half_even (a / pow2 e)) * pow2 e)"

text \<open>
  A number is \<open>NaN\<close>, an infinity or a finite value (negative zero is not
  distinguished from zero: no operation of the program tells them apart). \<open>js_round\<close>
  is the result of an operation whose exact value is \<open>x\<close>: the rounded magnitude with
  the sign of \<open>x\<close>, or an infinity when the rounded magnitude reaches \<open>2 ^ 1024\<close>.
\<close>

datatype jsnum = NaN | NegInf | Fin rat | PosInf

definition js_round :: "rat \<Rightarrow> jsnum" where
  "js_round x =
     (let r = round64 \<bar>x\<bar>
      in if 2 ^ 1024 \<le> r then (if 0 < x then PosInf else NegInf) else Fin (sgn x * r))"

fun js_sign :: "jsnum \<Rightarrow> int" where
  "js_sign NaN = 0"
| "js_sign NegInf = - 1"
| "js_sign PosInf = 1"
| "js_sign (Fin x) = (if 0 < x then 1 else if x < 0 then - 1 else 0)"

fun js_mul :: "jsnum \<Rightarrow> jsnum \<Rightarrow> jsnum" where
  "js_mul NaN b = NaN"
| "js_mul a NaN = NaN"
| "js_mul (Fin a) (Fin b) = js_round (a * b)"
| "js_mul a b =
     (if js_sign a * js_sign b = 0 then NaN
      else if 0 < js_sign a * js_sign b then PosInf else NegInf)"

fun js_add :: "jsnum \<Rightarrow> jsnum \<Rightarrow> jsnum" where
  "js_add NaN b = NaN"
| "js_add a NaN = NaN"
| "js_add (Fin a) (Fin b) = js_round (a + b)"
| "js_add (Fin a) b = b"
| "js_add a (Fin b) = a"
| "js_add a b = (if a = b then a else NaN)"

fun js_neg :: "jsnum \<Rightarrow> jsnum" where
  "js_neg NaN = NaN"
| "js_neg NegInf = PosInf"
| "js_neg PosInf = NegInf"
| "js_neg (Fin x) = Fin (- x)"

definition js_sub :: "jsnum \<Rightarrow> jsnum \<Rightarrow> jsnum" where
  "js_sub a b = js_add a (js_neg b)"

fun js_div :: "jsnum \<Rightarrow> jsnum \<Rightarrow> jsnum" where
  "js_div NaN b = NaN"
| "js_div a NaN = NaN"
| "js_div (Fin a) (Fin b) =
     (if b = 0 then (if a = 0 then NaN else if 0 < a then PosInf else NegInf)
      else js_round (a / b))"
| "js_div (Fin a) b = Fin 0"
| "js_div a (Fin b) = (if 0 \<le> b then a else js_neg a)"
| "js_div a b = NaN"

fun js_less :: "jsnum \<Rightarrow> jsnum \<Rightarrow> bool" where
  "js_less NaN b = False"
| "js_less a NaN = False"
| "js_less (Fin a) (Fin b) = (a < b)"
| "js_less a b = ((a = NegInf \<and> b \<noteq> NegInf) \<or> (b = PosInf \<and> a \<noteq> PosInf))"

text \<open>
  \<open>a || b\<close> on numbers (\<open>NaN\<close> and \<open>0\<close> are falsy), \<open>Math.max\<close>, \<open>Math.min\<close>
  and \<open>Math.round\<close> (to the nearest integer, a tie towards plus infinity).
  \<open>Number\<close> reads a field of the request body: an absent field is \<open>undefined\<close> and
  gives \<open>NaN\<close>; a field that is present is a text, and \<open>Some v\<close> stands for a text
  that \<open>Number\<close> converts to \<open>v\<close> (\<open>NaN\<close> when the text is not numeric).
\<close>

fun js_truthy :: "jsnum \<Rightarrow> bool" where
  "js_truthy NaN = False"
| "js_truthy (Fin x) = (x \<noteq> 0)"
| "js_truthy a = True"

definition js_or :: "jsnum \<Rightarrow> jsnum \<Rightarrow> jsnum" where
  "js_or a b = (if js_truthy a then a else b)"

fun Math_max :: "jsnum \<Rightarrow> jsnum \<Rightarrow> jsnum" where
  "Math_max NaN b = NaN"
| "Math_max a NaN = NaN"
| "Math_max a b = (if js_less a b then b else a)"

fun Math_min :: "jsnum \<Rightarrow> jsnum \<Rightarrow> jsnum" where
  "Math_min NaN b = NaN"
| "Math_min a NaN = NaN"
| "Math_min a b = (if js_less b a then b else a)"

fun Math_round :: "jsnum \<Rightarrow> jsnum" where
  "Math_round (Fin x) = Fin (of_int \<lfloor>x + 1 / 2\<rfloor>)"
| "Math_round a = a"

fun Number :: "jsnum option \<Rightarrow> jsnum" where
  "Number None = NaN"
| "Number (Some v) = v"

section \<open>Cutout detection\<close>

text \<open>
  The decoded frame: \<open>sharp(imagePath).metadata()\<close> gives \<open>width\<close>, \<open>height\<close> and
  \<open>channels\<close>, \<open>image.raw().toBuffer\<close> gives the bytes \<open>data\<close>. A file that sharp
  cannot read makes either call throw with sharp's message.
\<close>

record image =
  width :: int
  height :: int
  channels :: int
  data :: "8 word list"

datatype sharp_input = Unreadable string | Decoded image

datatype js_error = Error string

datatype cutout = Cutout (cx: int) (cy: int) (cwidth: int) (cheight: int)

text \<open>
  \<open>data[pixelIndex + 3] === 0\<close>: reading a Buffer outside its range gives
  \<open>undefined\<close>, which is not \<open>0\<close>.
\<close>

definition isTransparent :: "image \<Rightarrow> int \<Rightarrow> int \<Rightarrow> bool" where
  "isTransparent img x y =
     (let pixelIndex = (y * width img + x) * channels img
      in 0 \<le> pixelIndex + 3 \<and> pixelIndex + 3 < int (length (data img))
         \<and> data img ! nat (pixelIndex + 3) = 0)"

text \<open>
  The bounding-box scan. The state is \<open>(minX, maxX, minY, maxY)\<close>, started at
  \<open>(width, -1, height, -1)\<close>; the outer loop runs over the rows, the inner one over
  the columns.
\<close>

type_synonym bbox = "int \<times> int \<times> int \<times> int"

definition scanPixel :: "image \<Rightarrow> int \<Rightarrow> int \<Rightarrow> bbox \<Rightarrow> bbox" where
  "scanPixel img y x b =
     (case b of (minX, maxX, minY, maxY) \<Rightarrow>
        if isTransparent img x y then (min minX x, max maxX x, min minY y, max maxY y)
        else b)"

definition scanRow :: "image \<Rightarrow> int \<Rightarrow> bbox \<Rightarrow> bbox" where
  "scanRow img y b = fold (scanPixel img y) [0..width img - 1] b"

definition boundingBox :: "image \<Rightarrow> bbox" where
  "boundingBox img = fold (scanRow img) [0..height img - 1] (width img, - 1, height img, - 1)"

definition isRectangularFrame :: "image \<Rightarrow> bbox \<Rightarrow> bool" where
  "isRectangularFrame img b =
     (case b of (minX, maxX, minY, maxY) \<Rightarrow>
        list_all (\<lambda>(x, y). isTransparent img x y)
          [(minX, minY), (maxX, minY), (minX, maxY), (maxX, maxY)])"

definition evenDown :: "int \<Rightarrow> int" where
  "evenDown n = (if n mod 2 = 0 then n else n - 1)"

text \<open>
  \<open>isRectangleValid\<close>: the two loops return \<open>false\<close> at the first pixel that is not
  transparent and \<open>true\<close> when both run to their end.
\<close>

definition isRectangleValid :: "image \<Rightarrow> int \<Rightarrow> int \<Rightarrow> int \<Rightarrow> int \<Rightarrow> bool" where
  "isRectangleValid img x y w h =
     (list_all (\<lambda>i. isTransparent img (x + i) y \<and> isTransparent img (x + i) (y + h - 1))
        [0..w - 1]
      \<and> list_all (\<lambda>i. isTransparent img x (y + i) \<and> isTransparent img (x + w - 1) (y + i))
        [0..h - 1])"

text \<open>The literals \<open>0.5, 0.55, ..., 0.95\<close>, each read as the nearest binary64 value.\<close>

definition testPercentages :: "rat list" where
  "testPercentages =
     map round64 [50 / 100, 55 / 100, 60 / 100, 65 / 100, 70 / 100,
                  75 / 100, 80 / 100, 85 / 100, 90 / 100, 95 / 100]"

text \<open>
  The variables the search loop reads from its enclosing scope:
  \<open>(boundingWidth, boundingHeight, centerX, centerY)\<close> and the bounding box. A
  candidate is \<open>(testX, testY, testWidth, testHeight)\<close>; \<open>Math.floor(n * pct)\<close> rounds
  the product to binary64 before taking the floor.
\<close>

type_synonym rect = "int \<times> int \<times> int \<times> int"

definition candidate :: "int \<times> int \<times> int \<times> int \<Rightarrow> rat \<Rightarrow> rect" where
  "candidate dims pct =
     (case dims of (boundingWidth, boundingHeight, centerX, centerY) \<Rightarrow>
        let testWidth = \<lfloor>round64 (of_int boundingWidth * pct)\<rfloor>;
            testHeight = \<lfloor>round64 (of_int boundingHeight * pct)\<rfloor>;
            testX = centerX - testWidth div 2;
            testY = centerY - testHeight div 2
        in (testX, testY, testWidth, testHeight))"

definition withinBounds :: "bbox \<Rightarrow> rect \<Rightarrow> bool" where
  "withinBounds b r =
     (case (b, r) of ((minX, maxX, minY, maxY), (testX, testY, testWidth, testHeight)) \<Rightarrow>
        testX \<ge> minX \<and> testY \<ge> minY
        \<and> testX + testWidth \<le> maxX + 1 \<and> testY + testHeight \<le> maxY + 1)"

definition rectValid :: "image \<Rightarrow> rect \<Rightarrow> bool" where
  "rectValid img r = (case r of (x, y, w, h) \<Rightarrow> isRectangleValid img x y w h)"

text \<open>
  The search loop over the percentages. Its state is \<open>(bestX, bestY, bestWidth,
  bestHeight)\<close>; \<open>break\<close> returns the state as it stands.
\<close>

fun testLoop :: "image \<Rightarrow> bbox \<Rightarrow> int \<times> int \<times> int \<times> int \<Rightarrow> rat list \<Rightarrow> rect \<Rightarrow> rect" where
  "testLoop img b dims [] best = best"
| "testLoop img b dims (pct # rest) best =
     (if withinBounds b (candidate dims pct)
      then (if rectValid img (candidate dims pct)
            then testLoop img b dims rest (candidate dims pct)
            else best)
      else testLoop img b dims rest best)"

definition failedToDetect :: "string \<Rightarrow> js_error" where
  "failedToDetect message = Error (''Failed to detect transparent cutout: '' @ message)"

definition detectTransparentCutout :: "sharp_input \<Rightarrow> js_error + cutout" where
  "detectTransparentCutout input =
     (case input of
        Unreadable message \<Rightarrow> Inl (failedToDetect message)
      | Decoded img \<Rightarrow>
          if channels img < 4
          then Inl (failedToDetect ''Frame image must have an alpha channel (RGBA)'')
          else
            (case boundingBox img of (minX, maxX, minY, maxY) \<Rightarrow>
               if maxX = - 1 then Inr (Cutout 0 0 0 0)
               else
                 let boundingWidth = maxX - minX + 1;
                     boundingHeight = maxY - minY + 1
                 in if isRectangularFrame img (minX, maxX, minY, maxY)
                    then Inr (Cutout minX minY (evenDown boundingWidth) (evenDown boundingHeight))
                    else
                      let centerX = (minX + maxX) div 2;
                          centerY = (minY + maxY) div 2
                      in (case testLoop img (minX, maxX, minY, maxY)
                                 (boundingWidth, boundingHeight, centerX, centerY)
                                 testPercentages (minX, minY, 0, 0)
                          of (bestX, bestY, bestWidth, bestHeight) \<Rightarrow>
                               Inr (Cutout bestX bestY (evenDown bestWidth) (evenDown bestHeight)))))"

section \<open>Animation parameters and frame generation\<close>

text \<open>
  Lines 438-439 of \<^verbatim>\<open>server.js\<close>: the effective duration and frame rate.
\<close>

definition duration :: "jsnum option \<Rightarrow> jsnum" where
  "duration body_duration = Math_max (Fin 1) (js_or (Number body_duration) (Fin 8))"

definition fps :: "jsnum option \<Rightarrow> jsnum" where
  "fps body_fps = Math_max (Fin 12) (js_or (Number body_fps) (Fin 30))"

text \<open>
  Lines 529-533: \<open>totalFrames\<close>, \<open>maxScroll\<close> and \<open>step\<close>, with \<open>startY = 0\<close>
  and \<open>endY = maxScroll\<close>. Page and cutout heights are pixel counts: integers that
  binary64 holds exactly, which is so below \<open>2 ^ 53\<close>.
\<close>

definition BATCH_SIZE :: nat where
  "BATCH_SIZE = 4"

definition totalFrames :: "jsnum \<Rightarrow> jsnum \<Rightarrow> jsnum" where
  "totalFrames d f = Math_round (js_mul d f)"

definition maxScroll :: "int \<Rightarrow> int \<Rightarrow> int" where
  "maxScroll pageHeight screenHeight = max 0 (pageHeight - screenHeight)"

definition step :: "jsnum \<Rightarrow> int \<Rightarrow> jsnum" where
  "step nFrames endY =
     (if js_less (Fin 1) nFrames
      then js_div (Fin (of_int (endY - 0))) (js_sub nFrames (Fin 1))
      else Fin 0)"

text \<open>
  Lines 549-558: the offset \<open>y\<close> of frame \<open>i\<close> and the \<open>top\<close> of the region
  extracted from the page. A frame is the file number \<open>i + 1\<close> of its name and that
  \<open>top\<close>; the other values of the extraction and of the composition do not depend on
  \<open>i\<close>.
\<close>

definition frameY :: "jsnum \<Rightarrow> nat \<Rightarrow> jsnum" where
  "frameY st i = Math_round (js_add (Fin 0) (js_mul st (Fin (of_nat i))))"

definition cropTop :: "jsnum \<Rightarrow> int \<Rightarrow> int \<Rightarrow> jsnum" where
  "cropTop y pageHeight screenHeight =
     Math_max (Fin 0) (Math_min y (Fin (of_int (pageHeight - screenHeight))))"

datatype frame = Frame (fileNumber: nat) (top_extract: jsnum)

definition synthesize :: "jsnum \<Rightarrow> int \<Rightarrow> int \<Rightarrow> nat \<Rightarrow> frame" where
  "synthesize st pageHeight screenHeight i =
     Frame (i + 1) (cropTop (frameY st i) pageHeight screenHeight)"

text \<open>
  \<open>sharp(pageFile).extract\<close> rejects with \<open>bad extract area\<close> when the region does
  not lie inside the page: the page is as wide as the cutout, so the region fits exactly
  when \<open>top\<close> is a number from 0 with \<open>top + screenHeight\<close> at most the page height.
\<close>

definition extractRejects :: "jsnum \<Rightarrow> int \<Rightarrow> int \<Rightarrow> bool" where
  "extractRejects tp pageHeight screenHeight =
     (case tp of
        Fin v \<Rightarrow> \<not> (0 \<le> v \<and> v + of_int screenHeight \<le> of_int pageHeight)
      | _ \<Rightarrow> True)"

text \<open>
  Lines 543-595: the batches. The frames of a batch are made together and
  \<open>Promise.all\<close> rejects when one of them does: the rejection leaves the loop for the
  \<open>catch\<close> block of the handler, which is the result \<open>Inl\<close> with the message (the
  frames of that batch that were written are removed with the working directory and are
  not counted). \<open>cancelled batchStart\<close> is the value of \<open>isRequestCancelled\<close> when it
  is read after the batch that starts at \<open>batchStart\<close>. Otherwise the result is the
  frames written and whether the loop ran to its end. \<open>Math.round\<close> makes
  \<open>totalFrames\<close> an integer; when it is \<open>Infinity\<close> the condition of the loop never
  fails and the loop does not end by itself, which is the result \<open>None\<close>.
\<close>

function generateBatches ::
  "(nat \<Rightarrow> bool) \<Rightarrow> (frame \<Rightarrow> bool) \<Rightarrow> (nat \<Rightarrow> frame) \<Rightarrow> nat \<Rightarrow> nat \<Rightarrow> frame list
     \<Rightarrow> string + frame list \<times> bool" where
  "generateBatches cancelled rejects mk nFrames batchStart written =
     (if batchStart < nFrames
      then let batchEnd = min (batchStart + BATCH_SIZE) nFrames;
               batch = map mk [batchStart..<batchEnd]
           in if list_ex rejects batch then Inl ''extract_area: bad extract area''
              else if cancelled batchStart then Inr (written @ batch, False)
              else generateBatches cancelled rejects mk nFrames (batchStart + BATCH_SIZE)
                     (written @ batch)
      else Inr (written, True))"
  by pat_completeness auto
termination
  by (relation "measure (\<lambda>(cancelled, rejects, mk, nFrames, batchStart, written).
        nFrames - batchStart)")
     (auto simp: BATCH_SIZE_def)

declare generateBatches.simps [simp del]

definition generateFrames ::
  "(nat \<Rightarrow> bool) \<Rightarrow> jsnum \<Rightarrow> jsnum \<Rightarrow> int \<Rightarrow> int \<Rightarrow> (string + frame list \<times> bool) option" where
  "generateFrames cancelled d f pageHeight screenHeight =
     (let nFrames = totalFrames d f;
          st = step nFrames (maxScroll pageHeight screenHeight)
      in case nFrames of
           Fin t \<Rightarrow>
             Some (generateBatches cancelled
                     (\<lambda>fr. extractRejects (top_extract fr) pageHeight screenHeight)
                     (synthesize st pageHeight screenHeight) (nat \<lfloor>t\<rfloor>) 0 [])
         | PosInf \<Rightarrow> None
         | _ \<Rightarrow> Some (Inr ([], True)))"

section \<open>The file system of a job and its cleanup\<close>

text \<open>
  The paths a job touches: its working directory \<open>tmp/job_<timestamp>\<close>, the files
  inside it (the resized page, the numbered frames, the video), an uploaded file under
  \<open>tmp/uploads\<close> and the default frame. The file system is the set of paths that
  exist.
\<close>

datatype session_file = ResizedPage | FramePng nat | OutputMp4

datatype path = SessionDir nat | InSession nat session_file | Upload string | DefaultFramePath

text \<open>
  \<open>cleanupData\<close> and the entries of its \<open>uploadedFiles\<close> (\<open>{path, type}\<close>).
\<close>

record uploaded =
  file_path :: path
  file_kind :: string

record cleanup_data =
  sessionDir :: "path option"
  timestamp :: nat
  uploadedFiles :: "uploaded list option"

text \<open>
  What the run depends on outside the program: the clock, whether \<open>rimraf\<close>,
  \<open>fs.unlink\<close> and \<open>fs.mkdir\<close> reject, what a rejecting \<open>rimraf\<close> had removed
  before it gave up, what sharp reads from the page and the frame files, and whether
  resizing, frame synthesis (for a reason other than the extract area) and the encoder
  reject (with the message of the rejection).
\<close>

record env =
  now :: nat
  rimraf_rejects :: "path \<Rightarrow> bool"
  rimraf_partial :: "path \<Rightarrow> path set"
  unlink_rejects :: "path \<Rightarrow> bool"
  mkdir_rejects :: "string option"
  page_metadata :: "string + int \<times> int"
  frame_input :: "path \<Rightarrow> sharp_input"
  resize_rejects :: "string option"
  synthesis_rejects :: "string option"
  ffmpeg_rejects :: "string option"

text \<open>
  The calls \<open>performJobCleanup\<close> makes, in order.
\<close>

datatype fs_call = CallRimraf path | CallUnlink path

text \<open>
  \<open>rimraf dir\<close> removes the directory and what is inside it. When it rejects, the
  directory remains, and so does its content but for the entries already removed.
\<close>

definition inside :: "path \<Rightarrow> path \<Rightarrow> bool" where
  "inside dir p =
     (p = dir \<or> (case (dir, p) of (SessionDir ts, InSession ts' name) \<Rightarrow> ts = ts' | _ \<Rightarrow> False))"

definition rimraf :: "path \<Rightarrow> path set \<Rightarrow> path set" where
  "rimraf dir fs = Set.filter (\<lambda>p. \<not> inside dir p) fs"

definition rimrafRejected :: "env \<Rightarrow> path \<Rightarrow> path set \<Rightarrow> path set" where
  "rimrafRejected e dir fs =
     Set.filter (\<lambda>p. \<not> (inside dir p \<and> p \<noteq> dir \<and> p \<in> rimraf_partial e dir)) fs"

text \<open>
  The loop over \<open>uploadedFiles || []\<close>: each \<open>fs.unlink\<close> is called and its rejection
  (a file that is missing, or any other) is swallowed by \<open>.catch(() => {})\<close>.
\<close>

fun unlinkUploaded :: "env \<Rightarrow> uploaded list \<Rightarrow> path set \<Rightarrow> path set \<times> fs_call list" where
  "unlinkUploaded e [] fs = (fs, [])"
| "unlinkUploaded e (file # rest) fs =
     (let fs' = (if file_path file \<in> fs \<and> \<not> unlink_rejects e (file_path file)
                 then fs - {file_path file} else fs)
      in case unlinkUploaded e rest fs' of
           (fs'', calls) \<Rightarrow> (fs'', CallUnlink (file_path file) # calls))"

text \<open>
  \<open>performJobCleanup\<close>: the \<open>try\<close> block returns \<open>true\<close>; a rejection of
  \<open>rimraf\<close> is the only exception it can meet and takes it to the \<open>catch\<close>, which
  returns \<open>false\<close>. The result is the returned value, the file system afterwards and
  the calls made.
\<close>

definition performJobCleanup :: "env \<Rightarrow> cleanup_data \<Rightarrow> path set \<Rightarrow> bool \<times> path set \<times> fs_call list" where
  "performJobCleanup e cleanupData fs =
     (let files = (case uploadedFiles cleanupData of Some fl \<Rightarrow> fl | None \<Rightarrow> [])
      in case sessionDir cleanupData of
           Some dir \<Rightarrow>
             if rimraf_rejects e dir then (False, rimrafRejected e dir fs, [CallRimraf dir])
             else (case unlinkUploaded e files (rimraf dir fs) of
                     (fs', calls) \<Rightarrow> (True, fs', CallRimraf dir # calls))
         | None \<Rightarrow>
             (case unlinkUploaded e files fs of (fs', calls) \<Rightarrow> (True, fs', calls)))"

section \<open>The render handler\<close>

text \<open>
  The request after multer: the paths of the uploaded frame and page, when present, and
  the body fields. A response is a status with a body; an outcome is the response sent,
  the file system and the reasons of the cleanups run, once the handler has returned and
  the events \<open>finish\<close> and \<open>close\<close> of a sent response have been handled. The model
  covers the runs in which the client stays connected and the five-minute timer does not
  fire, so \<open>isRequestCancelled\<close> stays \<open>false\<close>.
\<close>

record request =
  frame_upload :: "string option"
  page_upload :: "string option"
  body_duration :: "jsnum option"
  body_fps :: "jsnum option"

datatype payload =
    ErrorMessage string
  | DimensionsTooLarge int int int int
  | RenderFailed string nat
  | VideoFile "frame list" jsnum

datatype response = Response nat payload

record outcome =
  response :: "response option"
  files :: "path set"
  cleanups :: "string list"

definition MAX_DIMENSION :: int where
  "MAX_DIMENSION = 4096"

definition uploadedRefs :: "request \<Rightarrow> uploaded list" where
  "uploadedRefs req =
     (case frame_upload req of
        Some p \<Rightarrow> [\<lparr>file_path = Upload p, file_kind = ''frame''\<rparr>]
      | None \<Rightarrow> [])
     @ (case page_upload req of
          Some p \<Rightarrow> [\<lparr>file_path = Upload p, file_kind = ''page''\<rparr>]
        | None \<Rightarrow> [])"

text \<open>
  An early \<open>return res.status(status).json(body)\<close>. The only handlers registered by
  then are the early \<open>close\<close> handler, which does nothing once the headers are sent,
  and the ones that clear the timer: no cleanup runs.
\<close>

definition replyJson :: "nat \<Rightarrow> payload \<Rightarrow> path set \<Rightarrow> outcome" where
  "replyJson status body fs = \<lparr>response = Some (Response status body), files = fs, cleanups = []\<rparr>"

text \<open>
  The \<open>catch\<close> block of the handler: cleanup with reason \<open>render-error\<close>, then the
  response 500.
\<close>

definition renderError :: "env \<Rightarrow> request \<Rightarrow> nat \<Rightarrow> string \<Rightarrow> path set \<Rightarrow> outcome" where
  "renderError e req ts details fs =
     (let errorCleanupData =
            \<lparr>sessionDir = Some (SessionDir ts), timestamp = ts,
             uploadedFiles = Some (uploadedRefs req)\<rparr>
      in case performJobCleanup e errorCleanupData fs of
           (ok, fs', calls) \<Rightarrow>
             \<lparr>response = Some (Response 500 (RenderFailed details ts)), files = fs',
              cleanups = [''render-error'']\<rparr>)"

text \<open>
  \<open>res.send\<close> of the video; the \<open>finish\<close> handler registered just before runs the
  cleanup with reason \<open>success\<close>.
\<close>

definition deliver :: "env \<Rightarrow> cleanup_data \<Rightarrow> frame list \<Rightarrow> jsnum \<Rightarrow> path set \<Rightarrow> outcome" where
  "deliver e cleanupData frames f fs =
     (case performJobCleanup e cleanupData fs of
        (ok, fs', calls) \<Rightarrow>
          \<lparr>response = Some (Response 200 (VideoFile frames f)), files = fs',
           cleanups = [''success'']\<rparr>)"

text \<open>
  The resize of the page to the cutout width: sharp throws for a height that is not a
  positive integer, and the write may reject.
\<close>

definition resizeTo :: "env \<Rightarrow> jsnum \<Rightarrow> string + int" where
  "resizeTo e newPageHeight =
     (case newPageHeight of
        Fin v \<Rightarrow>
          if 1 \<le> v
          then (case resize_rejects e of Some message \<Rightarrow> Inl message | None \<Rightarrow> Inr \<lfloor>v\<rfloor>)
          else Inl ''Expected positive integer for height''
      | _ \<Rightarrow> Inl ''Expected positive integer for height'')"

text \<open>
  Lines 528-651: the frames, the encoder and the delivery. A rejected synthesis or
  encoder run is caught by the \<open>catch\<close> block. Reading the frame file again (lines
  536-539) and reading the video (line 650) are taken to succeed.
\<close>

definition encode :: "env \<Rightarrow> request \<Rightarrow> cleanup_data \<Rightarrow> nat \<Rightarrow> jsnum \<Rightarrow> jsnum \<Rightarrow> int \<Rightarrow> int
    \<Rightarrow> path set \<Rightarrow> outcome option" where
  "encode e req cleanupData ts d f pageHeight screenHeight fs =
     (case generateFrames (\<lambda>batchStart. False) d f pageHeight screenHeight of
        None \<Rightarrow> None
      | Some (Inl message) \<Rightarrow> Some (renderError e req ts message fs)
      | Some (Inr (frames, finished)) \<Rightarrow>
          (case synthesis_rejects e of
             Some message \<Rightarrow> Some (renderError e req ts message fs)
           | None \<Rightarrow>
               let fs' = fs \<union> (\<lambda>fr. InSession ts (FramePng (fileNumber fr))) ` set frames
               in (case ffmpeg_rejects e of
                     Some message \<Rightarrow> Some (renderError e req ts message fs')
                   | None \<Rightarrow>
                       Some (deliver e cleanupData frames f (insert (InSession ts OutputMp4) fs')))))"

text \<open>
  Lines 359-526: validation, the working directory, the page metadata and its dimension
  check, detection and the resize.
\<close>

definition render :: "env \<Rightarrow> request \<Rightarrow> path set \<Rightarrow> outcome option" where
  "render e req fs =
     (case page_upload req of
        None \<Rightarrow> Some (replyJson 400 (ErrorMessage ''Please upload a page (long screenshot).'') fs)
      | Some pagePath \<Rightarrow>
          let ts = now e;
              cleanupData = \<lparr>sessionDir = Some (SessionDir ts), timestamp = ts,
                             uploadedFiles = Some (uploadedRefs req)\<rparr>;
              frameFile = (case frame_upload req of Some p \<Rightarrow> Upload p | None \<Rightarrow> DefaultFramePath);
              d = duration (body_duration req);
              f = fps (body_fps req)
          in case mkdir_rejects e of
               Some message \<Rightarrow> Some (renderError e req ts message fs)
             | None \<Rightarrow>
                 let fs1 = insert (SessionDir ts) fs
                 in (case page_metadata e of
                       Inl message \<Rightarrow> Some (renderError e req ts message fs1)
                     | Inr (pageWidth, pageHeight) \<Rightarrow>
                         if pageWidth > MAX_DIMENSION \<or> pageHeight > MAX_DIMENSION
                         then Some (replyJson 400
                                (DimensionsTooLarge MAX_DIMENSION MAX_DIMENSION pageWidth pageHeight) fs1)
                         else
                           (case detectTransparentCutout (frame_input e frameFile) of
                              Inl (Error message) \<Rightarrow>
                                Some (replyJson 400
                                  (ErrorMessage (''Auto-detection failed: '' @ message)) fs1)
                            | Inr cutout \<Rightarrow>
                                if cwidth cutout = 0 \<or> cheight cutout = 0
                                then Some (replyJson 400
                                  (ErrorMessage ''Could not detect a transparent cutout in the frame image.'')
                                  fs1)
                                else if cwidth cutout \<noteq> pageWidth
                                then
                                  let originalAspectRatio =
                                        js_div (Fin (of_int pageWidth)) (Fin (of_int pageHeight));
                                      newPageHeight =
                                        Math_round (js_div (Fin (of_int (cwidth cutout))) originalAspectRatio)
                                  in (case resizeTo e newPageHeight of
                                        Inl message \<Rightarrow>
                                          Some (replyJson 400
                                            (ErrorMessage (''Auto-detection failed: '' @ message)) fs1)
                                      | Inr resizedHeight \<Rightarrow>
                                          encode e req cleanupData ts d f resizedHeight (cheight cutout)
                                            (insert (InSession ts ResizedPage) fs1))
                                else encode e req cleanupData ts d f pageHeight (cheight cutout) fs1)))"

section \<open>Notions used in the statements\<close>

text \<open>
  The fully transparent pixels with column in \<open>X\<close> and row in \<open>Y\<close>, and the extent
  of a set of pixels: the least and greatest column and row, over the start values of the
  scan.
\<close>

definition transparentIn :: "image \<Rightarrow> int set \<Rightarrow> int set \<Rightarrow> (int \<times> int) set" where
  "transparentIn img X Y = {(x, y). x \<in> X \<and> y \<in> Y \<and> isTransparent img x y}"

definition extent :: "int \<Rightarrow> int \<Rightarrow> (int \<times> int) set \<Rightarrow> bbox" where
  "extent w h P = (Min (insert w (fst ` P)), Max (insert (- 1) (fst ` P)),
                   Min (insert h (snd ` P)), Max (insert (- 1) (snd ` P)))"

text \<open>
  A four-channel frame of the given size whose pixel \<open>(x, y)\<close> has alpha \<open>0\<close> where
  \<open>hole x y\<close> holds and alpha \<open>255\<close> elsewhere.
\<close>

definition frameWith :: "int \<Rightarrow> int \<Rightarrow> (int \<Rightarrow> int \<Rightarrow> bool) \<Rightarrow> image" where
  "frameWith w h hole =
     \<lparr>width = w, height = h, channels = 4,
      data = map (\<lambda>k. if k mod 4 = 3 \<and> hole (int (k div 4) mod w) (int (k div 4) div w)
                        then 0 else 255)
               [0..<nat (w * h * 4)]\<rparr>"

text \<open>
  The pixels on the four edges of a rectangle \<open>(x, y, w, h)\<close>, and a set of pixels all
  of which are fully transparent.
\<close>

definition perimeter :: "rect \<Rightarrow> (int \<times> int) set" where
  "perimeter r =
     (case r of (x, y, w, h) \<Rightarrow>
        {(px, py). x \<le> px \<and> px < x + w \<and> y \<le> py \<and> py < y + h
                   \<and> (px = x \<or> px = x + w - 1 \<or> py = y \<or> py = y + h - 1)})"

definition allTransparent :: "image \<Rightarrow> (int \<times> int) set \<Rightarrow> bool" where
  "allTransparent img S = (\<forall>(px, py) \<in> S. isTransparent img px py)"

text \<open>
  The values the search reads, as detection derives them from the bounding box; the
  candidate of the \<open>k\<close>-th percentage; a rectangle with both dimensions truncated down
  to even.
\<close>

definition searchDims :: "bbox \<Rightarrow> int \<times> int \<times> int \<times> int" where
  "searchDims b =
     (case b of (minX, maxX, minY, maxY) \<Rightarrow>
        (maxX - minX + 1, maxY - minY + 1, (minX + maxX) div 2, (minY + maxY) div 2))"

definition candidateAt :: "bbox \<Rightarrow> nat \<Rightarrow> rect" where
  "candidateAt b k = candidate (searchDims b) (testPercentages ! k)"

definition evenCutout :: "rect \<Rightarrow> cutout" where
  "evenCutout r = (case r of (x, y, w, h) \<Rightarrow> Cutout x y (2 * (w div 2)) (2 * (h div 2)))"

text \<open>
  Two holes for a 40 by 40 frame: a square with a cross through it, and the cross alone.
\<close>

definition roundedHole :: "int \<Rightarrow> int \<Rightarrow> bool" where
  "roundedHole x y = ((8 \<le> x \<and> x \<le> 29 \<and> 8 \<le> y \<and> y \<le> 29) \<or> x = 19 \<or> y = 19)"


section \<open>Inputs used in the examples\<close>

text \<open>
  An environment in which nothing rejects, a request with both uploads, a one-pixel
  opaque frame, a one-pixel frame without alpha channel, and a frame 5000 pixels wide
  whose transparent cutout is its first hundred columns.
\<close>

definition quietEnv :: "sharp_input \<Rightarrow> int \<times> int \<Rightarrow> env" where
  "quietEnv frame pageSize =
     \<lparr>now = 1758349793301, rimraf_rejects = (\<lambda>p. False), rimraf_partial = (\<lambda>p. {}),
      unlink_rejects = (\<lambda>p. False),
      mkdir_rejects = None, page_metadata = Inr pageSize, frame_input = (\<lambda>p. frame),
      resize_rejects = None, synthesis_rejects = None, ffmpeg_rejects = None\<rparr>"

definition frameAndPage :: request where
  "frameAndPage =
     \<lparr>frame_upload = Some ''frame'', page_upload = Some ''page'',
      body_duration = None, body_fps = None\<rparr>"

definition opaquePixel :: image where
  "opaquePixel = \<lparr>width = 1, height = 1, channels = 4, data = [0, 0, 0, 255]\<rparr>"

definition rgbPixel :: image where
  "rgbPixel = \<lparr>width = 1, height = 1, channels = 3, data = [0, 0, 0]\<rparr>"

definition wideFrame :: image where
  "wideFrame = frameWith 5000 4 (\<lambda>x y. x < 100)"

text \<open>
  An outcome whose response carries the dimension-limit body.
\<close>

definition dimensionError :: "outcome \<Rightarrow> bool" where
  "dimensionError out =
     (case response out of
        Some (Response status (DimensionsTooLarge a b c d)) \<Rightarrow> True
      | _ \<Rightarrow> False)"

section \<open>Detection without an alpha channel\<close>

text \<open>
  C7. A frame whose decoded buffer has fewer than four channels makes detection fail:
  the result is the error thrown for the missing alpha channel (the code's unsupported
  format failure), and it is never a rectangle.
\<close>

theorem detect_no_alpha_fails:
  "channels img < 4 \<Longrightarrow>
     detectTransparentCutout (Decoded img)
       = Inl (Error ''Failed to detect transparent cutout: Frame image must have an alpha channel (RGBA)'')
     \<and> (\<forall>r. detectTransparentCutout (Decoded img) \<noteq> Inr r)"
  by (simp add: detectTransparentCutout_def failedToDetect_def)

theorem detect_no_alpha_fails_witness:
  "channels \<lparr>width = 1, height = 1, channels = 3, data = [0, 0, 0]\<rparr> < 4
   \<and> detectTransparentCutout (Decoded \<lparr>width = 1, height = 1, channels = 3, data = [0, 0, 0]\<rparr>)
       = Inl (Error ''Failed to detect transparent cutout: Frame image must have an alpha channel (RGBA)'')"
  using detect_no_alpha_fails [of "\<lparr>width = 1, height = 1, channels = 3, data = [0, 0, 0]\<rparr>"]
  by simp

section \<open>The bounding-box scan\<close>

text \<open>
  The nested loops compute the extent of the transparent pixels of the image: each step
  of the inner loop adds one pixel to the set whose extent the state holds.
\<close>

lemma extent_insert:
  "finite P \<Longrightarrow> extent w h (insert (x, y) P)
     = (case extent w h P of (a, b, c, d) \<Rightarrow> (min a x, max b x, min c y, max d y))"
proof -
  assume fin: "finite P"
  have mn: "min v (Min (insert u A)) = min (Min (insert v A)) u" if "finite A" for u v :: int and A
    using that by (cases "A = {}") (simp_all add: ac_simps)
  have mx: "max v (Max (insert u A)) = max (Max (insert v A)) u" if "finite A" for u v :: int and A
    using that by (cases "A = {}") (simp_all add: ac_simps)
  show ?thesis
    using fin by (simp add: extent_def mn mx)
qed

lemma scanPixel_extent:
  "finite P \<Longrightarrow> scanPixel img y x (extent w h P)
     = extent w h (if isTransparent img x y then insert (x, y) P else P)"
  by (simp add: scanPixel_def extent_insert split: prod.splits)

lemma finite_transparentIn: "finite X \<Longrightarrow> finite Y \<Longrightarrow> finite (transparentIn img X Y)"
  by (rule finite_subset [of _ "X \<times> Y"]) (auto simp: transparentIn_def)

lemma fold_scanPixel_extent:
  "finite P \<Longrightarrow> fold (scanPixel img y) xs (extent w h P)
     = extent w h (P \<union> transparentIn img (set xs) {y})"
proof (induction xs arbitrary: P)
  case Nil
  then show ?case by (simp add: transparentIn_def)
next
  case (Cons x xs)
  have "transparentIn img (set (x # xs)) {y}
      = (if isTransparent img x y then {(x, y)} else {}) \<union> transparentIn img (set xs) {y}"
    by (auto simp: transparentIn_def)
  with Cons show ?case
    by (simp add: scanPixel_extent Un_assoc [symmetric])
qed

lemma fold_scanRow_extent:
  "finite P \<Longrightarrow> fold (scanRow img) ys (extent w h P)
     = extent w h (P \<union> transparentIn img {0..width img - 1} (set ys))"
proof (induction ys arbitrary: P)
  case Nil
  then show ?case by (simp add: transparentIn_def)
next
  case (Cons y ys)
  let ?R = "transparentIn img {0..width img - 1} {y}"
  have fin: "finite (P \<union> ?R)"
    using Cons.prems by (simp add: finite_transparentIn)
  have split: "transparentIn img {0..width img - 1} (insert y (set ys))
      = ?R \<union> transparentIn img {0..width img - 1} (set ys)"
    by (auto simp: transparentIn_def)
  have "scanRow img y (extent w h P) = extent w h (P \<union> ?R)"
    using Cons.prems by (simp add: scanRow_def fold_scanPixel_extent)
  then show ?case
    using Cons.IH [OF fin] by (simp add: split Un_assoc)
qed

lemma boundingBox_extent:
  "boundingBox img
     = extent (width img) (height img)
         (transparentIn img {0..width img - 1} {0..height img - 1})"
proof -
  have "(width img, - 1, height img, - 1) = extent (width img) (height img) {}"
    by (simp add: extent_def)
  then show ?thesis
    using fold_scanRow_extent [of "{}" img "[0..height img - 1]" "width img" "height img"]
    by (simp add: boundingBox_def)
qed

lemma extent_eqI:
  assumes fin: "finite P"
    and l: "(minX, yl) \<in> P" and r: "(maxX, yr) \<in> P" and t: "(xt, minY) \<in> P" and bt: "(xb, maxY) \<in> P"
    and inside: "\<And>x y. (x, y) \<in> P \<Longrightarrow> minX \<le> x \<and> x \<le> maxX \<and> minY \<le> y \<and> y \<le> maxY"
    and w: "maxX < w" and h: "maxY < h" and x0: "0 \<le> minX" and y0: "0 \<le> minY"
  shows "extent w h P = (minX, maxX, minY, maxY)"
proof -
  have le: "minX \<le> maxX" "minY \<le> maxY"
    using inside [OF l] by auto
  have a: "Min (insert w (fst ` P)) = minX"
  proof (rule Min_eqI)
    show "finite (insert w (fst ` P))" using fin by simp
    show "minX \<in> insert w (fst ` P)" using l by force
    show "minX \<le> v" if "v \<in> insert w (fst ` P)" for v
      using that inside w le by auto
  qed
  have b: "Max (insert (- 1) (fst ` P)) = maxX"
  proof (rule Max_eqI)
    show "finite (insert (- 1) (fst ` P))" using fin by simp
    show "maxX \<in> insert (- 1) (fst ` P)" using r by force
    show "v \<le> maxX" if "v \<in> insert (- 1) (fst ` P)" for v
      using that inside x0 le by auto
  qed
  have c: "Min (insert h (snd ` P)) = minY"
  proof (rule Min_eqI)
    show "finite (insert h (snd ` P))" using fin by simp
    show "minY \<in> insert h (snd ` P)" using t by force
    show "minY \<le> v" if "v \<in> insert h (snd ` P)" for v
      using that inside h le by auto
  qed
  have d: "Max (insert (- 1) (snd ` P)) = maxY"
  proof (rule Max_eqI)
    show "finite (insert (- 1) (snd ` P))" using fin by simp
    show "maxY \<in> insert (- 1) (snd ` P)" using bt by force
    show "v \<le> maxY" if "v \<in> insert (- 1) (snd ` P)" for v
      using that inside y0 le by auto
  qed
  show ?thesis
    by (simp add: extent_def a b c d)
qed

lemma evenDown_eq: "evenDown n = 2 * (n div 2)"
  unfolding evenDown_def by presburger

lemma isTransparent_frameWith:
  assumes "0 \<le> x" "x < w" "0 \<le> y" "y < h"
  shows "isTransparent (frameWith w h hole) x y = hole x y"
proof -
  let ?p = "y * w + x"
  have p0: "0 \<le> ?p" using assms by simp
  have "y * w \<le> (h - 1) * w"
    using assms by (intro mult_right_mono) auto
  then have plt: "?p < w * h"
    using assms by (simp add: algebra_simps)
  have k: "nat (?p * 4 + 3) = nat ?p * 4 + 3"
    using p0 by (simp add: nat_add_distrib nat_mult_distrib)
  have lt: "nat ?p * 4 + 3 < nat (w * h * 4)"
    using p0 plt by (simp add: nat_less_iff)
  have md: "?p mod w = x" "?p div w = y"
    using assms by simp_all
  show ?thesis
    using p0 plt k lt md
    by (simp add: isTransparent_def frameWith_def Let_def)
qed

lemma frameWith_sel:
  "width (frameWith w h hole) = w" "height (frameWith w h hole) = h"
  "channels (frameWith w h hole) = 4"
  by (simp_all add: frameWith_def)

section \<open>Rectangular frames\<close>

lemma detect_box:
  assumes ch: "4 \<le> channels img"
    and box: "0 \<le> minX" "minX \<le> maxX" "maxX < width img"
             "0 \<le> minY" "minY \<le> maxY" "maxY < height img"
    and corners: "isTransparent img minX minY" "isTransparent img maxX minY"
                 "isTransparent img minX maxY" "isTransparent img maxX maxY"
    and inside: "\<forall>x y. 0 \<le> x \<and> x < width img \<and> 0 \<le> y \<and> y < height img
                   \<and> isTransparent img x y
                   \<longrightarrow> minX \<le> x \<and> x \<le> maxX \<and> minY \<le> y \<and> y \<le> maxY"
  shows "detectTransparentCutout (Decoded img)
           = Inr (Cutout minX minY (2 * ((maxX - minX + 1) div 2)) (2 * ((maxY - minY + 1) div 2)))"
proof -
  let ?T = "transparentIn img {0..width img - 1} {0..height img - 1}"
  have bb: "boundingBox img = (minX, maxX, minY, maxY)"
    unfolding boundingBox_extent
  proof (rule extent_eqI [where yl = minY and yr = maxY and xt = minX and xb = maxX])
    show "finite ?T" by (simp add: finite_transparentIn)
    show c1: "(minX, minY) \<in> ?T" using box corners by (simp add: transparentIn_def)
    show c2: "(maxX, maxY) \<in> ?T" using box corners by (simp add: transparentIn_def)
    show "(minX, minY) \<in> ?T" by (rule c1)
    show "(maxX, maxY) \<in> ?T" by (rule c2)
    show "minX \<le> x \<and> x \<le> maxX \<and> minY \<le> y \<and> y \<le> maxY" if "(x, y) \<in> ?T" for x y
      using that inside by (auto simp: transparentIn_def)
  qed (use box in auto)
  have rect: "isRectangularFrame img (minX, maxX, minY, maxY)"
    using corners by (simp add: isRectangularFrame_def)
  have "maxX \<noteq> - 1" using box by simp
  then show ?thesis
    using ch bb rect by (simp add: detectTransparentCutout_def evenDown_eq)
qed

text \<open>
  C4. For a frame with at least four channels, let \<open>(minX, minY)\<close>-\<open>(maxX, maxY)\<close> be
  the bounding box of its fully transparent pixels (every transparent pixel of the image
  lies in it) with all four corners fully transparent. Detection returns that box: the
  origin \<open>(minX, minY)\<close> unchanged, the width \<open>maxX - minX + 1\<close> and the height
  \<open>maxY - minY + 1\<close> each truncated down to the nearest even number. The witness is the
  818 by 1784 frame whose transparent box spans (19,20)-(799,1764): its cutout is
  (19, 20, 780, 1744).
\<close>

theorem detect_rectangular:
  assumes ch: "4 \<le> channels img"
    and box: "0 \<le> minX" "minX \<le> maxX" "maxX < width img"
             "0 \<le> minY" "minY \<le> maxY" "maxY < height img"
    and corners: "isTransparent img minX minY" "isTransparent img maxX minY"
                 "isTransparent img minX maxY" "isTransparent img maxX maxY"
    and inside: "\<forall>x y. 0 \<le> x \<and> x < width img \<and> 0 \<le> y \<and> y < height img
                   \<and> isTransparent img x y
                   \<longrightarrow> minX \<le> x \<and> x \<le> maxX \<and> minY \<le> y \<and> y \<le> maxY"
  shows "detectTransparentCutout (Decoded img)
           = Inr (Cutout minX minY (2 * ((maxX - minX + 1) div 2)) (2 * ((maxY - minY + 1) div 2)))"
  using assms by (rule detect_box)

theorem detect_rectangular_witness:
  "detectTransparentCutout
     (Decoded (frameWith 818 1784 (\<lambda>x y. 19 \<le> x \<and> x \<le> 799 \<and> 20 \<le> y \<and> y \<le> 1764)))
   = Inr (Cutout 19 20 780 1744)"
proof -
  let ?hole = "\<lambda>x y :: int. 19 \<le> x \<and> x \<le> 799 \<and> 20 \<le> y \<and> y \<le> 1764"
  let ?img = "frameWith 818 1784 ?hole"
  have tr: "isTransparent ?img x y = ?hole x y" if "0 \<le> x" "x < 818" "0 \<le> y" "y < 1784" for x y
    using that by (rule isTransparent_frameWith)
  have "detectTransparentCutout (Decoded ?img)
      = Inr (Cutout 19 20 (2 * ((799 - 19 + 1) div 2)) (2 * ((1764 - 20 + 1) div 2)))"
  proof (rule detect_rectangular)
    show "\<forall>x y. 0 \<le> x \<and> x < width ?img \<and> 0 \<le> y \<and> y < height ?img \<and> isTransparent ?img x y
            \<longrightarrow> 19 \<le> x \<and> x \<le> 799 \<and> 20 \<le> y \<and> y \<le> 1764"
      by (auto simp: frameWith_sel tr)
  qed (simp_all add: frameWith_sel tr)
  then show ?thesis by simp
qed

section \<open>Rounding to binary64\<close>

text \<open>
  Two facts about \<open>round64\<close> are needed: the rounded value exceeds the exact one by at
  most half a unit of the last place, and rounding never takes a value from \<open>1\<close> or
  above to below \<open>1\<close>.
\<close>

lemma pow2_power_int: "pow2 k = power_int 2 k"
  by (simp add: pow2_def power_int_def field_simps)

lemma pow2_pos: "0 < pow2 k"
  by (simp add: pow2_power_int)

lemma pow2_diff: "pow2 (i - j) = pow2 i / pow2 j"
  by (simp add: pow2_power_int power_int_diff)

lemma pow2_nat: "0 \<le> k \<Longrightarrow> pow2 k = 2 ^ nat k"
  by (simp add: pow2_def)

lemma pow2_ilog2_le:
  assumes "0 < a"
  shows "pow2 (ilog2 a) \<le> a"
proof -
  obtain p q where pq: "quotient_of a = (p, q)"
    by (cases "quotient_of a")
  then have q: "0 < q" and a: "a = of_int p / of_int q"
    using quotient_of_denom_pos [OF pq] quotient_of_div [OF pq] by simp_all
  have p: "0 < p"
    using assms q a by (simp add: zero_less_divide_iff)
  let ?k = "bitlen p - bitlen q"
  show ?thesis
  proof (cases "pow2 ?k \<le> a")
    case True
    then show ?thesis by (simp add: ilog2_def pq)
  next
    case False
    have bp: "(2::int) ^ nat (bitlen p - 1) \<le> p"
      using bitlen_bounds [OF p] by simp
    have bq: "q < (2::int) ^ nat (bitlen q)"
      using bitlen_bounds [OF q] by simp
    have "bitlen p - 1 \<ge> 0" "bitlen q \<ge> 0"
      using p q bitlen_nonneg [of q] bitlen_eq_zero_iff [of p] bitlen_nonneg [of p] by auto
    then have e: "pow2 (bitlen p - 1) = 2 ^ nat (bitlen p - 1)" "pow2 (bitlen q) = 2 ^ nat (bitlen q)"
      by (simp_all add: pow2_nat)
    have "pow2 (bitlen p - 1) \<le> of_int p"
      unfolding e using bp by (metis of_int_le_iff of_int_numeral of_int_power)
    moreover have "of_int q \<le> pow2 (bitlen q)"
      unfolding e using bq by (metis less_imp_le of_int_le_iff of_int_numeral of_int_power)
    ultimately have "pow2 (bitlen p - 1) / pow2 (bitlen q) \<le> of_int p / of_int q"
      using q p pow2_pos [of "bitlen q"] pow2_pos [of "bitlen p - 1"]
      by (intro frac_le) auto
    then have "pow2 (?k - 1) \<le> a"
      using pow2_diff [of "bitlen p - 1" "bitlen q"] a by (simp add: algebra_simps)
    with False show ?thesis by (simp add: ilog2_def pq)
  qed
qed

lemma round_half_even_bounds:
  "of_int (round_half_even r) \<le> r + 1 / 2" "r - 1 / 2 \<le> of_int (round_half_even r)"
  unfolding round_half_even_def Let_def by (auto simp: not_less) linarith+

lemma round_half_even_ge: "of_int k \<le> r \<Longrightarrow> k \<le> round_half_even r"
proof -
  assume "of_int k \<le> r"
  then have "k \<le> \<lfloor>r\<rfloor>" by (simp add: le_floor_iff)
  then show ?thesis
    by (simp add: round_half_even_def Let_def)
qed

lemma round64_nonneg: "0 \<le> a \<Longrightarrow> 0 \<le> round64 a"
proof -
  assume a: "0 \<le> a"
  have "0 \<le> round_half_even r" if "0 \<le> r" for r
  proof -
    have "- 1 < (of_int (round_half_even r) :: rat)"
      using round_half_even_bounds(2) [of r] that by linarith
    then show ?thesis by linarith
  qed
  then show ?thesis
    using a pow2_pos by (simp add: round64_def Let_def zero_le_mult_iff zero_le_divide_iff less_imp_le)
qed

lemma round64_upper:
  assumes "0 < a"
  shows "round64 a \<le> a + max (a / 2 ^ 53) (pow2 (- 1075))"
proof -
  define e where "e = max (ilog2 a - 52) (- 1074)"
  have r: "round64 a = of_int (round_half_even (a / pow2 e)) * pow2 e"
    using assms by (simp add: round64_def e_def Let_def)
  have "of_int (round_half_even (a / pow2 e)) * pow2 e \<le> (a / pow2 e + 1 / 2) * pow2 e"
    using round_half_even_bounds(1) [of "a / pow2 e"] pow2_pos [of e]
    by (intro mult_right_mono) auto
  also have "\<dots> = a + pow2 e / 2"
    using pow2_pos [of e] by (simp add: field_simps)
  finally have 1: "round64 a \<le> a + pow2 e / 2"
    by (simp add: r)
  have "pow2 e / 2 \<le> max (a / 2 ^ 53) (pow2 (- 1075))"
  proof (cases "ilog2 a - 52 \<ge> - 1074")
    case True
    then have "e = ilog2 a - 52" by (simp add: e_def)
    then have "pow2 e = pow2 (ilog2 a) / 2 ^ 52"
      by (simp add: pow2_diff pow2_nat)
    then have "pow2 e / 2 \<le> a / 2 ^ 53"
      using pow2_ilog2_le [OF assms] by (simp add: field_simps)
    then show ?thesis by simp
  next
    case False
    then have "e = - 1074" by (simp add: e_def)
    then have "pow2 e / 2 = pow2 (- 1075)"
      using pow2_diff [of "- 1074" 1] by (simp add: pow2_nat)
    then show ?thesis by simp
  qed
  with 1 show ?thesis by linarith
qed

lemma round64_lower:
  assumes "0 < a"
  shows "a - max (a / 2 ^ 53) (pow2 (- 1075)) \<le> round64 a"
proof -
  define e where "e = max (ilog2 a - 52) (- 1074)"
  have r: "round64 a = of_int (round_half_even (a / pow2 e)) * pow2 e"
    using assms by (simp add: round64_def e_def Let_def)
  have "(a / pow2 e - 1 / 2) * pow2 e \<le> of_int (round_half_even (a / pow2 e)) * pow2 e"
    using round_half_even_bounds(2) [of "a / pow2 e"] pow2_pos [of e]
    by (intro mult_right_mono) auto
  moreover have "(a / pow2 e - 1 / 2) * pow2 e = a - pow2 e / 2"
    using pow2_pos [of e] by (simp add: field_simps)
  ultimately have 1: "a - pow2 e / 2 \<le> round64 a"
    by (simp add: r)
  have "pow2 e / 2 \<le> max (a / 2 ^ 53) (pow2 (- 1075))"
  proof (cases "ilog2 a - 52 \<ge> - 1074")
    case True
    then have "e = ilog2 a - 52" by (simp add: e_def)
    then have "pow2 e = pow2 (ilog2 a) / 2 ^ 52"
      by (simp add: pow2_diff pow2_nat)
    then have "pow2 e / 2 \<le> a / 2 ^ 53"
      using pow2_ilog2_le [OF assms] by (simp add: field_simps)
    then show ?thesis by simp
  next
    case False
    then have "e = - 1074" by (simp add: e_def)
    then have "pow2 e / 2 = pow2 (- 1075)"
      using pow2_diff [of "- 1074" 1] by (simp add: pow2_nat)
    then show ?thesis by simp
  qed
  with 1 show ?thesis by linarith
qed

lemma round64_ge_1:
  assumes "1 \<le> a"
  shows "1 \<le> round64 a"
proof -
  define e where "e = max (ilog2 a - 52) (- 1074)"
  have a0: "0 < a" using assms by simp
  have r: "round64 a = of_int (round_half_even (a / pow2 e)) * pow2 e"
    using a0 by (simp add: round64_def e_def Let_def)
  show ?thesis
  proof (cases "e \<le> 0")
    case True
    then have pe: "pow2 e = 1 / 2 ^ nat (- e)"
      by (cases "e = 0") (simp_all add: pow2_def)
    have "of_int (2 ^ nat (- e)) \<le> a / pow2 e"
      using assms by (simp add: pe)
    then have "2 ^ nat (- e) \<le> round_half_even (a / pow2 e)"
      by (rule round_half_even_ge)
    then have "(of_int (2 ^ nat (- e)) :: rat) \<le> of_int (round_half_even (a / pow2 e))"
      by (simp only: of_int_le_iff)
    then have "of_int (2 ^ nat (- e)) * pow2 e \<le> of_int (round_half_even (a / pow2 e)) * pow2 e"
      using pow2_pos [of e] by (intro mult_right_mono) auto
    then show ?thesis
      by (simp add: r pe)
  next
    case False
    then have e: "e = ilog2 a - 52" "0 < e" by (simp_all add: e_def)
    have "pow2 e = pow2 (ilog2 a) / 2 ^ 52"
      using e by (simp add: pow2_diff pow2_nat)
    then have "of_int 1 \<le> a / pow2 e"
      using pow2_ilog2_le [OF a0] pow2_pos [of "ilog2 a"] pow2_pos [of e]
      by (simp add: field_simps)
    then have "1 \<le> round_half_even (a / pow2 e)"
      by (rule round_half_even_ge)
    then have m: "(1::rat) \<le> of_int (round_half_even (a / pow2 e))"
      by simp
    have "(1::rat) \<le> pow2 e"
      using e by (simp add: pow2_def)
    with m have "1 * 1 \<le> of_int (round_half_even (a / pow2 e)) * pow2 e"
      by (intro mult_mono) auto
    then show ?thesis by (simp add: r)
  qed
qed

section \<open>The candidates of the search\<close>

lemma length_testPercentages: "length testPercentages = 10"
  by (simp add: testPercentages_def)

lemma testPercentages_nth:
  "j < 10 \<Longrightarrow> testPercentages ! j = round64 ((50 + 5 * of_nat j) / 100)"
proof -
  assume "j < 10"
  then have "j \<in> {0, 1, 2, 3, 4, 5, 6, 7, 8, 9}" by auto
  then show ?thesis
    by (auto simp: testPercentages_def)
qed

lemma pct_range: "list_all (\<lambda>p. 1 / 2 \<le> p \<and> p \<le> 96 / 100) testPercentages"
  by code_simp

lemma scale_upper:
  assumes n: "1 \<le> n" and p: "p \<in> set testPercentages"
  shows "0 \<le> \<lfloor>round64 (of_int n * p)\<rfloor>" "\<lfloor>round64 (of_int n * p)\<rfloor> \<le> n - 1"
proof -
  have pr: "1 / 2 \<le> p" "p \<le> 96 / 100"
    using pct_range p by (auto simp: list_all_iff)
  let ?a = "of_int n * p :: rat"
  have n1: "(1::rat) \<le> of_int n" using n by simp
  have a0: "0 < ?a" using n1 pr by (simp add: zero_less_mult_iff)
  show "0 \<le> \<lfloor>round64 ?a\<rfloor>"
    using round64_nonneg [of ?a] a0 by simp
  have le: "?a \<le> of_int n * (96 / 100)"
    using pr n1 by (intro mult_left_mono) auto
  have tiny: "pow2 (- 1075) \<le> 1 / 100"
    by (simp add: pow2_def)
  have m1: "?a / 2 ^ 53 \<le> of_int n * (1 / 100)"
    using le n1 by (simp add: field_simps)
  have "(1::rat) / 100 \<le> of_int n * (1 / 100)"
    using n1 by simp
  with tiny have m2: "pow2 (- 1075) \<le> of_int n * (1 / 100)"
    by (rule order_trans)
  have m: "max (?a / 2 ^ 53) (pow2 (- 1075)) \<le> of_int n * (1 / 100)"
    using m1 m2 by (rule max.boundedI)
  have lin: "r < N" if "mx \<le> N * (1 / 100)" "r \<le> a + mx" "a \<le> N * (96 / 100)" "1 \<le> N"
    for r a mx N :: rat
    using that by linarith
  have "round64 ?a < of_int n"
    using m round64_upper [OF a0] le n1 by (rule lin)
  then show "\<lfloor>round64 ?a\<rfloor> \<le> n - 1"
    by (simp add: floor_less_iff)
qed

lemma scale_lower:
  assumes n: "2 \<le> n" and p: "p \<in> set testPercentages"
  shows "1 \<le> \<lfloor>round64 (of_int n * p)\<rfloor>"
proof -
  have pr: "1 / 2 \<le> p"
    using pct_range p by (auto simp: list_all_iff)
  have "(2::rat) \<le> of_int n" using n by simp
  then have "2 * (1 / 2) \<le> of_int n * p"
    using pr by (intro mult_mono) auto
  then have "1 \<le> round64 (of_int n * p)"
    by (intro round64_ge_1) simp
  then show ?thesis by (simp add: le_floor_iff)
qed

lemma candidate_withinBounds:
  assumes "minX \<le> maxX" "minY \<le> maxY" "p \<in> set testPercentages"
  shows "withinBounds (minX, maxX, minY, maxY)
           (candidate (maxX - minX + 1, maxY - minY + 1, (minX + maxX) div 2, (minY + maxY) div 2) p)"
proof -
  define tw where "tw = \<lfloor>round64 (of_int (maxX - minX + 1) * p)\<rfloor>"
  define th where "th = \<lfloor>round64 (of_int (maxY - minY + 1) * p)\<rfloor>"
  have w: "0 \<le> tw" "tw \<le> maxX - minX"
    using scale_upper [of "maxX - minX + 1" p] assms by (simp_all add: tw_def)
  have h: "0 \<le> th" "th \<le> maxY - minY"
    using scale_upper [of "maxY - minY + 1" p] assms by (simp_all add: th_def)
  have "(minX + maxX) div 2 - tw div 2 \<ge> minX" "(minX + maxX) div 2 - tw div 2 + tw \<le> maxX + 1"
    using w by linarith+
  moreover have "(minY + maxY) div 2 - th div 2 \<ge> minY" "(minY + maxY) div 2 - th div 2 + th \<le> maxY + 1"
    using h by linarith+
  ultimately show ?thesis
    by (simp add: withinBounds_def candidate_def Let_def tw_def th_def)
qed

lemma rectValid_perimeter:
  assumes "1 \<le> w" "1 \<le> h"
  shows "rectValid img (x, y, w, h) = allTransparent img (perimeter (x, y, w, h))"
proof
  assume v: "rectValid img (x, y, w, h)"
  then have tb: "\<And>i. 0 \<le> i \<Longrightarrow> i \<le> w - 1 \<Longrightarrow> isTransparent img (x + i) y \<and> isTransparent img (x + i) (y + h - 1)"
    and lr: "\<And>i. 0 \<le> i \<Longrightarrow> i \<le> h - 1 \<Longrightarrow> isTransparent img x (y + i) \<and> isTransparent img (x + w - 1) (y + i)"
    by (auto simp: rectValid_def isRectangleValid_def list_all_iff)
  show "allTransparent img (perimeter (x, y, w, h))"
    unfolding allTransparent_def perimeter_def
  proof clarsimp
    fix px py
    assume b: "x \<le> px" "px < x + w" "y \<le> py" "py < y + h"
      and e: "px = x \<or> px = x + w - 1 \<or> py = y \<or> py = y + h - 1"
    from tb [of "px - x"] lr [of "py - y"] b e
    show "isTransparent img px py" by auto
  qed
next
  assume a: "allTransparent img (perimeter (x, y, w, h))"
  then have p: "\<And>px py. x \<le> px \<Longrightarrow> px < x + w \<Longrightarrow> y \<le> py \<Longrightarrow> py < y + h
      \<Longrightarrow> px = x \<or> px = x + w - 1 \<or> py = y \<or> py = y + h - 1 \<Longrightarrow> isTransparent img px py"
    by (auto simp: allTransparent_def perimeter_def)
  show "rectValid img (x, y, w, h)"
    using assms by (auto simp: rectValid_def isRectangleValid_def list_all_iff intro!: p)
qed

lemma corner_not_valid:
  "\<not> isTransparent img x y \<Longrightarrow> 1 \<le> w \<Longrightarrow> \<not> rectValid img (x, y, w, h)"
  by (auto simp: rectValid_def isRectangleValid_def list_all_iff intro!: bexI [of _ 0])

lemma extent_sides:
  assumes fin: "finite P"
    and rng: "\<And>x y. (x, y) \<in> P \<Longrightarrow> 0 \<le> x \<and> x < w \<and> 0 \<le> y \<and> y < h"
    and ext: "extent w h P = (a, b, c, d)" and b: "b \<noteq> - 1"
  shows "\<exists>yl yr xt xb. (a, yl) \<in> P \<and> (b, yr) \<in> P \<and> (xt, c) \<in> P \<and> (xb, d) \<in> P"
    and "\<And>x y. (x, y) \<in> P \<Longrightarrow> a \<le> x \<and> x \<le> b \<and> c \<le> y \<and> y \<le> d"
proof -
  have eq: "a = Min (insert w (fst ` P))" "b = Max (insert (- 1) (fst ` P))"
    "c = Min (insert h (snd ` P))" "d = Max (insert (- 1) (snd ` P))"
    using ext by (simp_all add: extent_def)
  have fx: "finite (insert w (fst ` P))" "finite (insert (- 1) (fst ` P))"
    and fy: "finite (insert h (snd ` P))" "finite (insert (- 1) (snd ` P))"
    using fin by simp_all
  show bounds: "a \<le> x \<and> x \<le> b \<and> c \<le> y \<and> y \<le> d" if "(x, y) \<in> P" for x y
  proof -
    have "x \<in> fst ` P" "y \<in> snd ` P" using that by force+
    then show ?thesis
      unfolding eq using fx fy by (simp add: Min_le Max_ge)
  qed
  have "b \<in> insert (- 1) (fst ` P)"
    unfolding eq by (rule Max_in) (use fx in auto)
  with b have bP: "b \<in> fst ` P" by simp
  then obtain yr where r: "(b, yr) \<in> P" by force
  have "a \<in> insert w (fst ` P)"
    unfolding eq by (rule Min_in) (use fx in auto)
  moreover have "a \<noteq> w" using bounds [OF r] rng [OF r] by simp
  ultimately obtain yl where l: "(a, yl) \<in> P" by force
  have "c \<in> insert h (snd ` P)"
    unfolding eq by (rule Min_in) (use fy in auto)
  moreover have "c \<noteq> h" using bounds [OF r] rng [OF r] by simp
  ultimately obtain xt where t: "(xt, c) \<in> P" by force
  have "d \<in> insert (- 1) (snd ` P)"
    unfolding eq by (rule Max_in) (use fy in auto)
  moreover have "d \<noteq> - 1" using bounds [OF r] rng [OF r] by simp
  ultimately obtain xb where bt: "(xb, d) \<in> P" by force
  from l r t bt show "\<exists>yl yr xt xb. (a, yl) \<in> P \<and> (b, yr) \<in> P \<and> (xt, c) \<in> P \<and> (xb, d) \<in> P"
    by blast
qed

lemma rounded_box_wide:
  assumes bb: "boundingBox img = (minX, maxX, minY, maxY)" and ne: "maxX \<noteq> - 1"
    and rounded: "\<not> isRectangularFrame img (minX, maxX, minY, maxY)"
  shows "minX < maxX \<and> minY < maxY"
proof -
  let ?T = "transparentIn img {0..width img - 1} {0..height img - 1}"
  have fin: "finite ?T" by (simp add: finite_transparentIn)
  have rng: "0 \<le> x \<and> x < width img \<and> 0 \<le> y \<and> y < height img" if "(x, y) \<in> ?T" for x y
    using that by (auto simp: transparentIn_def)
  have ext: "extent (width img) (height img) ?T = (minX, maxX, minY, maxY)"
    using bb by (simp add: boundingBox_extent)
  obtain yl yr xt xb where s: "(minX, yl) \<in> ?T" "(maxX, yr) \<in> ?T" "(xt, minY) \<in> ?T" "(xb, maxY) \<in> ?T"
    using extent_sides(1) [OF fin rng ext ne] by blast
  have bounds: "minX \<le> x \<and> x \<le> maxX \<and> minY \<le> y \<and> y \<le> maxY" if "(x, y) \<in> ?T" for x y
    using extent_sides(2) [OF fin rng ext ne that] .
  have tr: "isTransparent img x y" if "(x, y) \<in> ?T" for x y
    using that by (simp add: transparentIn_def)
  have "minX \<noteq> maxX"
  proof
    assume e: "minX = maxX"
    have "xt = minX" "xb = minX" using bounds [OF s(3)] bounds [OF s(4)] e by auto
    then have "isTransparent img minX minY" "isTransparent img minX maxY"
      using tr [OF s(3)] tr [OF s(4)] by auto
    with rounded e show False by (simp add: isRectangularFrame_def)
  qed
  moreover have "minY \<noteq> maxY"
  proof
    assume e: "minY = maxY"
    have "yl = minY" "yr = minY" using bounds [OF s(1)] bounds [OF s(2)] e by auto
    then have "isTransparent img minX minY" "isTransparent img maxX minY"
      using tr [OF s(1)] tr [OF s(2)] by auto
    with rounded e show False by (simp add: isRectangularFrame_def)
  qed
  ultimately show ?thesis
    using bounds [OF s(1)] bounds [OF s(3)] by auto
qed

lemma rounded_candidates:
  assumes bb: "boundingBox img = (minX, maxX, minY, maxY)" and ne: "maxX \<noteq> - 1"
    and rounded: "\<not> isRectangularFrame img (minX, maxX, minY, maxY)"
    and j: "j < 10"
  shows "withinBounds (minX, maxX, minY, maxY) (candidateAt (minX, maxX, minY, maxY) j)"
    and "rectValid img (candidateAt (minX, maxX, minY, maxY) j)
           = allTransparent img (perimeter (candidateAt (minX, maxX, minY, maxY) j))"
proof -
  have wide: "minX < maxX" "minY < maxY"
    using rounded_box_wide [OF bb ne rounded] by simp_all
  have p: "testPercentages ! j \<in> set testPercentages"
    using j by (simp add: length_testPercentages)
  show "withinBounds (minX, maxX, minY, maxY) (candidateAt (minX, maxX, minY, maxY) j)"
    using candidate_withinBounds [of minX maxX minY maxY, OF _ _ p] wide
    by (simp add: candidateAt_def searchDims_def)
  obtain x y w h where c: "candidateAt (minX, maxX, minY, maxY) j = (x, y, w, h)"
    by (cases "candidateAt (minX, maxX, minY, maxY) j")
  then have "w = \<lfloor>round64 (of_int (maxX - minX + 1) * (testPercentages ! j))\<rfloor>"
    "h = \<lfloor>round64 (of_int (maxY - minY + 1) * (testPercentages ! j))\<rfloor>"
    by (simp_all add: candidateAt_def searchDims_def candidate_def Let_def)
  then have "1 \<le> w" "1 \<le> h"
    using scale_lower [OF _ p, of "maxX - minX + 1"] scale_lower [OF _ p, of "maxY - minY + 1"] wide
    by simp_all
  then show "rectValid img (candidateAt (minX, maxX, minY, maxY) j)
           = allTransparent img (perimeter (candidateAt (minX, maxX, minY, maxY) j))"
    unfolding c by (rule rectValid_perimeter)
qed

section \<open>The search loop\<close>

lemma testLoop_valid_prefix:
  assumes "\<forall>p \<in> set ps. withinBounds b (candidate dims p) \<and> rectValid img (candidate dims p)"
  shows "testLoop img b dims (ps @ rest) best
           = testLoop img b dims rest (if ps = [] then best else candidate dims (last ps))"
  using assms by (induction ps arbitrary: best) auto

lemma testLoop_stop:
  "withinBounds b (candidate dims p) \<Longrightarrow> \<not> rectValid img (candidate dims p)
     \<Longrightarrow> testLoop img b dims (p # rest) best = best"
  by simp

lemma testLoop_skip:
  "\<not> withinBounds b (candidate dims p)
     \<Longrightarrow> testLoop img b dims (p # rest) best = testLoop img b dims rest best"
  by simp


lemma detect_rounded_search:
  assumes "4 \<le> channels img" "boundingBox img = (minX, maxX, minY, maxY)" "maxX \<noteq> - 1"
    "\<not> isRectangularFrame img (minX, maxX, minY, maxY)"
  shows "detectTransparentCutout (Decoded img)
    = Inr (evenCutout (testLoop img (minX, maxX, minY, maxY) (searchDims (minX, maxX, minY, maxY))
             testPercentages (minX, minY, 0, 0)))"
  using assms
  by (simp add: detectTransparentCutout_def searchDims_def evenCutout_def evenDown_eq Let_def
      split: prod.splits)

lemma boundingBox_cross40:
  assumes "\<And>x y. x = 19 \<or> y = 19 \<Longrightarrow> hole x y"
  shows "boundingBox (frameWith 40 40 hole) = (0, 39, 0, 39)"
proof -
  let ?img = "frameWith 40 40 hole"
  let ?T = "transparentIn ?img {0..width ?img - 1} {0..height ?img - 1}"
  have mem: "(x, y) \<in> transparentIn ?img {0..39} {0..39}
      \<longleftrightarrow> 0 \<le> x \<and> x \<le> 39 \<and> 0 \<le> y \<and> y \<le> 39 \<and> hole x y" for x y
    by (auto simp: transparentIn_def isTransparent_frameWith)
  show ?thesis
    unfolding boundingBox_extent
  proof (rule extent_eqI [where yl = 19 and yr = 19 and xt = 19 and xb = 19])
    show "finite ?T" by (simp add: finite_transparentIn)
  qed (simp_all add: mem assms frameWith_sel)
qed

lemma candidates40:
  "map (candidateAt (0, 39, 0, 39)) [0, 1, 2, 3, 4, 5, 6, 7, 8, 9]
     = [(9, 9, 20, 20), (8, 8, 22, 22), (7, 7, 24, 24), (6, 6, 26, 26), (5, 5, 28, 28), (4, 4, 30, 30), (3, 3, 32, 32), (2, 2, 34, 34), (1, 1, 36, 36), (0, 0, 38, 38)]"
  by code_simp

section \<open>Frames with rounded corners\<close>

text \<open>
  C3. For a frame with at least four channels whose bounding box of fully transparent
  pixels has a corner that is not fully transparent: the ten percentages are the binary64
  values of 0.50, 0.55, ..., 0.95 in this order; each candidate has the floor of that
  fraction of the width and of the height of the box and is centred on the centre of the
  box; it passes the bounds check and so is tested; a
  candidate is valid exactly when every pixel on its four edges is fully transparent; and
  when the candidates up to the \<open>k\<close>-th are valid and the next one, if there is one, is
  not, detection returns the \<open>k\<close>-th candidate with its width and height truncated down
  to even. With \<open>k = 1\<close>: 50% and 55% valid and 60% not gives the 55% rectangle, which
  is the witness, on a 40 by 40 frame.
\<close>

theorem detect_rounded:
  assumes ch: "4 \<le> channels img"
    and bb: "boundingBox img = (minX, maxX, minY, maxY)" and ne: "maxX \<noteq> - 1"
    and rounded: "\<not> isRectangularFrame img (minX, maxX, minY, maxY)"
  shows "(\<forall>j<10. testPercentages ! j = round64 ((50 + 5 * of_nat j) / 100)
            \<and> candidateAt (minX, maxX, minY, maxY) j
                = (let w = \<lfloor>round64 (of_int (maxX - minX + 1) * testPercentages ! j)\<rfloor>;
                       h = \<lfloor>round64 (of_int (maxY - minY + 1) * testPercentages ! j)\<rfloor>
                   in ((minX + maxX) div 2 - w div 2, (minY + maxY) div 2 - h div 2, w, h))
            \<and> withinBounds (minX, maxX, minY, maxY) (candidateAt (minX, maxX, minY, maxY) j)
            \<and> rectValid img (candidateAt (minX, maxX, minY, maxY) j)
                = allTransparent img (perimeter (candidateAt (minX, maxX, minY, maxY) j)))
       \<and> (\<forall>k<10. (\<forall>j\<le>k. rectValid img (candidateAt (minX, maxX, minY, maxY) j))
                 \<and> (k < 9 \<longrightarrow> \<not> rectValid img (candidateAt (minX, maxX, minY, maxY) (Suc k)))
            \<longrightarrow> detectTransparentCutout (Decoded img)
                  = Inr (evenCutout (candidateAt (minX, maxX, minY, maxY) k)))"
proof (intro conjI allI impI)
  fix j :: nat
  assume j: "j < 10"
  let ?b = "(minX, maxX, minY, maxY)"
  show "testPercentages ! j = round64 ((50 + 5 * of_nat j) / 100)"
    using j by (rule testPercentages_nth)
  show "candidateAt ?b j
      = (let w = \<lfloor>round64 (of_int (maxX - minX + 1) * testPercentages ! j)\<rfloor>;
             h = \<lfloor>round64 (of_int (maxY - minY + 1) * testPercentages ! j)\<rfloor>
         in ((minX + maxX) div 2 - w div 2, (minY + maxY) div 2 - h div 2, w, h))"
    by (simp add: candidateAt_def searchDims_def candidate_def Let_def)
  show "withinBounds ?b (candidateAt ?b j)"
    using bb ne rounded j by (rule rounded_candidates(1))
  show "rectValid img (candidateAt ?b j) = allTransparent img (perimeter (candidateAt ?b j))"
    using bb ne rounded j by (rule rounded_candidates(2))
next
  fix k :: nat
  let ?b = "(minX, maxX, minY, maxY)"
  let ?d = "searchDims ?b"
  assume k: "k < 10"
    and v: "(\<forall>j\<le>k. rectValid img (candidateAt ?b j))
            \<and> (k < 9 \<longrightarrow> \<not> rectValid img (candidateAt ?b (Suc k)))"
  let ?ps = "take (Suc k) testPercentages" and ?rest = "drop (Suc k) testPercentages"
  have len: "length testPercentages = 10" by (rule length_testPercentages)
  have pre: "\<forall>p \<in> set ?ps. withinBounds ?b (candidate ?d p) \<and> rectValid img (candidate ?d p)"
  proof
    fix p assume "p \<in> set ?ps"
    then obtain j where j: "j < Suc k" "p = testPercentages ! j"
      using k len by (auto simp: in_set_conv_nth)
    then have "j < 10" "j \<le> k" using k by simp_all
    then show "withinBounds ?b (candidate ?d p) \<and> rectValid img (candidate ?d p)"
      using rounded_candidates(1) [OF bb ne rounded, of j] v j(2)
      by (simp add: candidateAt_def)
  qed
  have lst: "last ?ps = testPercentages ! k" "?ps \<noteq> []"
    using k len by (simp_all add: take_Suc_conv_app_nth)
  have 1: "testLoop img ?b ?d testPercentages (minX, minY, 0, 0)
         = testLoop img ?b ?d ?rest (candidateAt ?b k)"
    using testLoop_valid_prefix [OF pre, of ?rest "(minX, minY, 0, 0)"] lst
    by (simp add: candidateAt_def)
  have 2: "testLoop img ?b ?d ?rest (candidateAt ?b k) = candidateAt ?b k"
  proof (cases "k < 9")
    case True
    then have r: "?rest = testPercentages ! Suc k # drop (Suc (Suc k)) testPercentages"
      using len by (simp add: Cons_nth_drop_Suc)
    have "withinBounds ?b (candidate ?d (testPercentages ! Suc k))"
      using rounded_candidates(1) [OF bb ne rounded, of "Suc k"] True
      by (simp add: candidateAt_def)
    moreover have "\<not> rectValid img (candidate ?d (testPercentages ! Suc k))"
      using v True by (simp add: candidateAt_def)
    ultimately show ?thesis
      unfolding r by (rule testLoop_stop)
  next
    case False
    then have "?rest = []" using k len by simp
    then show ?thesis by simp
  qed
  show "detectTransparentCutout (Decoded img) = Inr (evenCutout (candidateAt ?b k))"
    using detect_rounded_search [OF ch bb ne rounded] 1 2 by simp
qed

theorem detect_rounded_witness:
  "boundingBox (frameWith 40 40 roundedHole) = (0, 39, 0, 39)
   \<and> \<not> isRectangularFrame (frameWith 40 40 roundedHole) (0, 39, 0, 39)
   \<and> candidateAt (0, 39, 0, 39) 1 = (8, 8, 22, 22)
   \<and> rectValid (frameWith 40 40 roundedHole) (candidateAt (0, 39, 0, 39) 0)
   \<and> rectValid (frameWith 40 40 roundedHole) (candidateAt (0, 39, 0, 39) 1)
   \<and> \<not> rectValid (frameWith 40 40 roundedHole) (candidateAt (0, 39, 0, 39) 2)
   \<and> detectTransparentCutout (Decoded (frameWith 40 40 roundedHole)) = Inr (Cutout 8 8 22 22)"
proof -
  let ?img = "frameWith 40 40 roundedHole"
  let ?b = "(0, 39, 0, 39) :: bbox"
  have tr: "isTransparent ?img x y = roundedHole x y" if "0 \<le> x" "x < 40" "0 \<le> y" "y < 40" for x y
    using that by (rule isTransparent_frameWith)
  have ch: "4 \<le> channels ?img" by (simp add: frameWith_sel)
  have bb: "boundingBox ?img = ?b"
    by (rule boundingBox_cross40) (auto simp: roundedHole_def)
  have ne: "(39::int) \<noteq> - 1" by simp
  have rounded: "\<not> isRectangularFrame ?img ?b"
    by (simp add: isRectangularFrame_def tr roundedHole_def)
  have c: "candidateAt ?b 0 = (9, 9, 20, 20)" "candidateAt ?b 1 = (8, 8, 22, 22)"
    "candidateAt ?b 2 = (7, 7, 24, 24)"
    using candidates40 by simp_all
  have v0: "rectValid ?img (candidateAt ?b 0)"
    unfolding c by (subst rectValid_perimeter)
      (auto simp: allTransparent_def perimeter_def tr roundedHole_def)
  have v1: "rectValid ?img (candidateAt ?b 1)"
    unfolding c by (subst rectValid_perimeter)
      (auto simp: allTransparent_def perimeter_def tr roundedHole_def)
  have v2: "\<not> rectValid ?img (candidateAt ?b 2)"
    unfolding c by (rule corner_not_valid) (simp_all add: tr roundedHole_def)
  have "\<forall>j\<le>1. rectValid ?img (candidateAt ?b j)"
    using v0 v1 by (auto simp: le_Suc_eq)
  then have "detectTransparentCutout (Decoded ?img) = Inr (evenCutout (candidateAt ?b 1))"
    using detect_rounded [OF ch bb ne rounded, THEN conjunct2] v2 by (simp add: numeral_2_eq_2)
  then show ?thesis
    using bb rounded c v0 v1 v2 by (simp add: evenCutout_def)
qed

section \<open>Candidates outside the bounding box, and no valid candidate\<close>




section \<open>Facts about the number operations and the batch loop\<close>

lemma js_round_small:
  assumes "\<bar>x\<bar> \<le> 2 ^ 1000"
  shows "js_round x = Fin (sgn x * round64 \<bar>x\<bar>)"
proof (cases "x = 0")
  case True
  then show ?thesis by (simp add: js_round_def round64_def)
next
  case False
  then have a: "0 < \<bar>x\<bar>" by simp
  have t: "pow2 (- 1075) \<le> 2 ^ 1000"
    by (simp add: pow2_def)
  have "\<bar>x\<bar> / 2 ^ 53 \<le> \<bar>x\<bar>"
    by (simp add: field_simps)
  with assms have "\<bar>x\<bar> / 2 ^ 53 \<le> 2 ^ 1000" by linarith
  with t have "max (\<bar>x\<bar> / 2 ^ 53) (pow2 (- 1075)) \<le> 2 ^ 1000"
    by (rule max.boundedI [rotated])
  with round64_upper [OF a] assms have "round64 \<bar>x\<bar> \<le> 2 ^ 1000 + 2 ^ 1000"
    by linarith
  also have "\<dots> < (2::rat) ^ 1024" by simp
  finally show ?thesis
    by (simp add: js_round_def Let_def)
qed

lemma js_round_overflow:
  assumes "2 * 2 ^ 1024 \<le> x"
  shows "js_round x = PosInf"
proof -
  have p: "(1::rat) \<le> 2 ^ 1024"
    by (rule one_le_power) simp
  with assms have x: "0 < x" "2 \<le> x" by linarith+
  have "x / 2 ^ 53 \<le> x / 2"
    using x(1) by (intro divide_left_mono) simp_all
  moreover have "pow2 (- 1075) \<le> 1"
    by (simp add: pow2_def)
  ultimately have "max (x / 2 ^ 53) (pow2 (- 1075)) \<le> x / 2"
    using x(2) by (intro max.boundedI) linarith+
  with round64_lower [OF x(1)] have "x / 2 \<le> round64 x"
    by linarith
  with assms have "2 ^ 1024 \<le> round64 \<bar>x\<bar>"
    using x(1) by (simp add: abs_of_pos)
  then show ?thesis
    using x(1) by (simp add: js_round_def Let_def del: power_numeral)
qed

lemma js_round_0: "js_round 0 = Fin 0"
  by (simp add: js_round_small round64_def)

lemma js_round_ge_1:
  assumes "1 \<le> x"
  shows "js_round x = PosInf \<or> (\<exists>r. js_round x = Fin r \<and> 1 \<le> r)"
proof -
  have "1 \<le> round64 x" using assms by (rule round64_ge_1)
  then show ?thesis
    using assms by (auto simp: js_round_def Let_def)
qed

lemma Math_round_cases:
  "Math_round v = NaN \<or> Math_round v = NegInf \<or> Math_round v = PosInf
     \<or> (\<exists>n::int. Math_round v = Fin (of_int n))"
  by (cases v) auto

lemma floor_half: "\<lfloor>1 / 2 :: rat\<rfloor> = 0"
  by (simp add: floor_eq_iff)

lemma round64_24: "round64 24 = 24"
  by code_simp

lemma round64_23: "round64 23 = 23"
  by code_simp

lemma round64_step: "round64 (1874 / 23) = 2866761447585703 / 35184372088832"
  by code_simp

lemma generateBatches_all:
  assumes "\<forall>b. \<not> cancelled b" and "\<forall>i. \<not> rejects (mk i)"
  shows "generateBatches cancelled rejects mk n batchStart written
           = Inr (written @ map mk [batchStart..<n], True)"
  using assms
proof (induction cancelled rejects mk n batchStart written rule: generateBatches.induct)
  case (1 cancelled rejects mk n batchStart written)
  show ?case
  proof (cases "batchStart < n")
    case False
    then show ?thesis by (simp add: generateBatches.simps [of cancelled rejects mk n batchStart])
  next
    case True
    let ?e = "min (batchStart + BATCH_SIZE) n"
    have nc: "\<not> cancelled batchStart" using "1.prems" by simp
    have nr: "\<not> list_ex rejects (map mk [batchStart..<?e])"
      using "1.prems" by (simp add: list_ex_iff)
    have IH: "generateBatches cancelled rejects mk n (batchStart + BATCH_SIZE)
                (written @ map mk [batchStart..<?e])
              = Inr ((written @ map mk [batchStart..<?e]) @ map mk [batchStart + BATCH_SIZE..<n], True)"
      using "1.IH" [OF True refl refl nr nc "1.prems"] .
    have "[batchStart..<?e] @ [batchStart + BATCH_SIZE..<n] = [batchStart..<n]"
    proof (cases "batchStart + BATCH_SIZE \<le> n")
      case True
      then show ?thesis
        by (simp add: min_absorb1 upt_add_eq_append [symmetric] le_iff_add)
          (metis le_add1 le_iff_add upt_add_eq_append)
    next
      case False
      then show ?thesis by (simp add: min_absorb2)
    qed
    then have "map mk [batchStart..<?e] @ map mk [batchStart + BATCH_SIZE..<n] = map mk [batchStart..<n]"
      by (metis map_append)
    with True nc nr IH show ?thesis
      by (simp add: generateBatches.simps [of cancelled rejects mk n batchStart] Let_def)
  qed
qed

lemma generateBatches_frames:
  "generateBatches cancelled rejects mk n batchStart written = Inr (frames, finished)
     \<Longrightarrow> fr \<in> set frames \<Longrightarrow> fr \<in> set written \<or> (\<exists>i. fr = mk i)"
proof (induction cancelled rejects mk n batchStart written rule: generateBatches.induct)
  case (1 cancelled rejects mk n batchStart written)
  show ?case
  proof (cases "batchStart < n")
    case False
    with "1.prems" show ?thesis
      by (simp add: generateBatches.simps [of cancelled rejects mk n batchStart])
  next
    case True
    let ?b = "map mk [batchStart..<min (batchStart + BATCH_SIZE) n]"
    have nr: "\<not> list_ex rejects ?b"
      using True "1.prems"(1)
      by (auto simp: generateBatches.simps [of cancelled rejects mk n batchStart] Let_def
          split: if_splits)
    show ?thesis
    proof (cases "cancelled batchStart")
      case c: True
      with True nr "1.prems" show ?thesis
        by (auto simp: generateBatches.simps [of cancelled rejects mk n batchStart] Let_def)
    next
      case c: False
      have "generateBatches cancelled rejects mk n (batchStart + BATCH_SIZE) (written @ ?b)
          = Inr (frames, finished)"
        using True c nr "1.prems"(1)
        by (simp add: generateBatches.simps [of cancelled rejects mk n batchStart] Let_def)
      then have "fr \<in> set (written @ ?b) \<or> (\<exists>i. fr = mk i)"
        using "1.IH" [OF True refl refl nr c] "1.prems"(2) by simp
      then show ?thesis by auto
    qed
  qed
qed

lemma js_round_not_NaN: "js_round x \<noteq> NaN"
  by (simp add: js_round_def Let_def)

lemma frameY_not_NaN: "frameY (Fin s) i \<noteq> NaN"
proof -
  have a: "js_add (Fin 0) v \<noteq> NaN" if "v \<noteq> NaN" for v
    using that by (cases v) (simp_all add: js_round_not_NaN)
  have r: "Math_round v \<noteq> NaN" if "v \<noteq> NaN" for v
    using that by (cases v) simp_all
  have "js_mul (Fin s) (Fin (of_nat i)) \<noteq> NaN"
    by (simp add: js_round_not_NaN)
  then show ?thesis
    unfolding frameY_def by (intro r a)
qed

lemma step_integer_zero: "step (Fin (of_int n)) 0 = Fin 0"
proof (cases "1 < n")
  case False
  then show ?thesis by (simp add: step_def)
next
  case True
  then have "2 \<le> n" by simp
  then have "(2::rat) \<le> of_int n" by (metis of_int_le_iff of_int_numeral)
  then have "(1::rat) \<le> of_int n - 1" by linarith
  then have "js_round (of_int n - 1) = PosInf \<or> (\<exists>r. js_round (of_int n - 1) = Fin r \<and> 1 \<le> r)"
    by (rule js_round_ge_1)
  then have "js_div (Fin 0) (js_round (of_int n - 1)) = Fin 0"
    by (auto simp: js_round_0)
  with True show ?thesis
    by (simp add: step_def js_sub_def)
qed

lemma step_zero: "step (Math_round v) 0 = Fin 0"
  using Math_round_cases [of v]
  by (auto simp: step_integer_zero) (simp_all add: step_def js_sub_def)

lemma frameY_zero: "frameY (Fin 0) i = Fin 0"
  by (simp add: frameY_def js_round_0 floor_half)

lemma cropTop_zero: "cropTop (Fin 0) pageHeight screenHeight = Fin 0"
  by (simp add: cropTop_def)

lemma cropTop_clamped:
  assumes "y \<noteq> NaN" "screenHeight \<le> pageHeight"
  shows "\<exists>v. cropTop y pageHeight screenHeight = Fin v \<and> 0 \<le> v
             \<and> v \<le> of_int (pageHeight - screenHeight)"
  using assms by (cases y) (auto simp: cropTop_def)


lemma extract_fits:
  assumes "y \<noteq> NaN" and "screenHeight \<le> pageHeight"
  shows "\<not> extractRejects (cropTop y pageHeight screenHeight) pageHeight screenHeight"
proof -
  obtain v where "cropTop y pageHeight screenHeight = Fin v" "0 \<le> v"
      "v \<le> of_int (pageHeight - screenHeight)"
    using cropTop_clamped [OF assms] by blast
  then show ?thesis
    by (simp add: extractRejects_def)
qed

lemma step_finite:
  assumes "0 \<le> ms" and "ms < 2 ^ 53"
  shows "\<exists>s. step (Fin (of_int n)) ms = Fin s"
proof (cases "1 < n")
  case False
  then show ?thesis by (simp add: step_def)
next
  case True
  then have "2 \<le> n" by simp
  then have "(2::rat) \<le> of_int n" by (metis of_int_le_iff of_int_numeral)
  then have "(1::rat) \<le> of_int n - 1" by linarith
  then have c: "js_round (of_int n - 1) = PosInf \<or> (\<exists>r. js_round (of_int n - 1) = Fin r \<and> 1 \<le> r)"
    by (rule js_round_ge_1)
  have m0: "(0::rat) \<le> of_int ms" using assms(1) by simp
  have "of_int ms < (2::rat) ^ 53"
    using assms(2) by (metis of_int_less_iff of_int_numeral of_int_power)
  moreover have "(2::rat) ^ 53 \<le> 2 ^ 1000" by simp
  ultimately have m1: "(of_int ms :: rat) \<le> 2 ^ 1000" by linarith
  have "\<exists>s. js_div (Fin (of_int ms)) (js_round (of_int n - 1)) = Fin s"
  proof -
    from c show ?thesis
    proof
      assume "js_round (of_int n - 1) = PosInf"
      then show ?thesis by simp
    next
      assume "\<exists>r. js_round (of_int n - 1) = Fin r \<and> 1 \<le> r"
      then obtain r where r: "js_round (of_int n - 1) = Fin r" "1 \<le> r" by blast
      have "of_int ms / r \<le> of_int ms"
        using m0 r(2) by (simp add: divide_le_eq mult_le_cancel_left1)
      moreover have "0 \<le> of_int ms / r"
        using m0 r(2) by simp
      ultimately have "\<bar>of_int ms / r\<bar> \<le> 2 ^ 1000"
        using m1 by linarith
      then have "js_round (of_int ms / r) = Fin (sgn (of_int ms / r) * round64 \<bar>of_int ms / r\<bar>)"
        by (rule js_round_small)
      with r show ?thesis by simp
    qed
  qed
  with True show ?thesis
    by (simp add: step_def js_sub_def)
qed

lemma generateFrames_all:
  assumes tf: "totalFrames d f = Fin (of_int n)" and nc: "\<forall>b. \<not> cancelled b"
    and fits: "screenHeight \<le> pageHeight" and safe: "pageHeight - screenHeight < 2 ^ 53"
  shows "generateFrames cancelled d f pageHeight screenHeight
           = Some (Inr (map (synthesize (step (Fin (of_int n)) (maxScroll pageHeight screenHeight))
                               pageHeight screenHeight) [0..<nat n], True))"
proof -
  let ?ms = "maxScroll pageHeight screenHeight"
  have "0 \<le> ?ms" "?ms < 2 ^ 53"
    using fits safe by (simp_all add: maxScroll_def)
  then obtain s where st: "step (Fin (of_int n)) ?ms = Fin s"
    using step_finite by blast
  have nr: "\<forall>i. \<not> extractRejects (top_extract (synthesize (Fin s) pageHeight screenHeight i))
      pageHeight screenHeight"
    using fits by (simp add: synthesize_def extract_fits frameY_not_NaN)
  show ?thesis
    using generateBatches_all [OF nc, of
        "\<lambda>fr. extractRejects (top_extract fr) pageHeight screenHeight"
        "synthesize (Fin s) pageHeight screenHeight" "nat n" 0 "[]"] nr
    by (simp add: generateFrames_def tf st Let_def)
qed

lemma totalFrames_2_12: "totalFrames (Fin 2) (Fin 12) = Fin 24"
proof -
  have "js_round 24 = Fin 24"
    by (simp add: js_round_small round64_24)
  moreover have "\<lfloor>24 + 1 / 2 :: rat\<rfloor> = 24"
    by (simp add: floor_eq_iff)
  ultimately show ?thesis
    by (simp add: totalFrames_def)
qed

lemma step_24_1874: "step (Fin 24) 1874 = Fin (2866761447585703 / 35184372088832)"
proof -
  have "js_round 23 = Fin 23"
    by (simp add: js_round_small round64_23)
  moreover have "js_round (1874 / 23) = Fin (2866761447585703 / 35184372088832)"
    by (simp add: js_round_small round64_step)
  ultimately show ?thesis
    by (simp add: step_def js_sub_def)
qed

section \<open>Effective duration and frame rate\<close>

text \<open>
  C8, amended. The effective duration is 8 when the field is absent and \<open>max 1 d\<close> when
  the field converts to a number \<open>d\<close> other than zero; the effective frame rate is 30
  when the field is absent and \<open>max 12 f\<close> when it converts to a number \<open>f\<close> other than
  zero.
\<close>

theorem effective_duration_fps:
  "duration None = Fin 8 \<and> fps None = Fin 30
   \<and> (d \<noteq> 0 \<longrightarrow> duration (Some (Fin d)) = Fin (max 1 d))
   \<and> (f \<noteq> 0 \<longrightarrow> fps (Some (Fin f)) = Fin (max 12 f))"
  by (simp add: duration_def fps_def js_or_def max_def)

theorem effective_duration_fps_witness:
  "duration (Some (Fin 2)) = Fin 2 \<and> fps (Some (Fin 10)) = Fin 12
   \<and> duration (Some (Fin (1 / 2))) = Fin 1 \<and> fps (Some (Fin 60)) = Fin 60"
  using effective_duration_fps [of 2 10] effective_duration_fps [of "1 / 2" 60]
  by simp

text \<open>
  Without the exception for zero the statement fails: \<open>0 || 8\<close> is \<open>8\<close>, so
  the duration is 8 and not \<open>max 1 0 = 1\<close>, and likewise the frame rate is 30 and not 12.
\<close>

theorem zero_duration_takes_default:
  "duration (Some (Fin 0)) = Fin 8 \<and> duration (Some (Fin 0)) \<noteq> Fin (max 1 0)
   \<and> fps (Some (Fin 0)) = Fin 30 \<and> fps (Some (Fin 0)) \<noteq> Fin (max 12 0)"
  by (simp add: duration_def fps_def js_or_def)

section \<open>A page no taller than the cutout\<close>

text \<open>
  C6. When the page height is at most the cutout height, \<open>maxScroll\<close> is 0 and the
  extraction of every frame index starts at the top of the page, whatever the effective
  duration and frame rate; so every frame that is generated shows the same region (when
  the page is shorter than the cutout the extraction is rejected and none is generated).
\<close>

theorem no_scroll_when_page_fits:
  assumes "pageHeight \<le> screenHeight"
  shows "maxScroll pageHeight screenHeight = 0
    \<and> (\<forall>i. top_extract (synthesize (step (totalFrames d f) (maxScroll pageHeight screenHeight))
                  pageHeight screenHeight i) = Fin 0)
    \<and> (\<forall>frames finished.
          generateFrames cancelled d f pageHeight screenHeight = Some (Inr (frames, finished))
          \<longrightarrow> (\<forall>fr \<in> set frames. top_extract fr = Fin 0))"
proof -
  have m: "maxScroll pageHeight screenHeight = 0"
    using assms by (simp add: maxScroll_def)
  have st: "step (totalFrames d f) (maxScroll pageHeight screenHeight) = Fin 0"
    by (simp add: m totalFrames_def step_zero)
  have mk: "top_extract (synthesize (Fin 0) pageHeight screenHeight i) = Fin 0" for i
    by (simp add: synthesize_def frameY_zero cropTop_zero)
  have fr0: "top_extract fr = Fin 0"
    if g: "generateFrames cancelled d f pageHeight screenHeight = Some (Inr (frames, finished))"
      and fr: "fr \<in> set frames" for frames finished fr
  proof (cases "totalFrames d f")
    case (Fin t)
    with g st have "generateBatches cancelled
        (\<lambda>fr. extractRejects (top_extract fr) pageHeight screenHeight)
        (synthesize (Fin 0) pageHeight screenHeight)
        (nat \<lfloor>t\<rfloor>) 0 [] = Inr (frames, finished)"
      by (simp add: generateFrames_def Let_def)
    from generateBatches_frames [OF this fr]
    obtain i where "fr = synthesize (Fin 0) pageHeight screenHeight i"
      by auto
    then show ?thesis by (simp add: mk)
  next
    case NaN
    with g fr show ?thesis by (simp add: generateFrames_def Let_def)
  next
    case NegInf
    with g fr show ?thesis by (simp add: generateFrames_def Let_def)
  next
    case PosInf
    with g fr show ?thesis by (simp add: generateFrames_def Let_def)
  qed
  show ?thesis
  proof (intro conjI allI impI ballI)
    show "maxScroll pageHeight screenHeight = 0" by (rule m)
    show "top_extract (synthesize (step (totalFrames d f) (maxScroll pageHeight screenHeight))
                  pageHeight screenHeight i) = Fin 0" for i
      unfolding st by (rule mk)
    show "top_extract fr = Fin 0"
      if "generateFrames cancelled d f pageHeight screenHeight = Some (Inr (frames, finished))"
        "fr \<in> set frames" for frames finished fr
      using that by (rule fr0)
  qed
qed

theorem no_scroll_when_page_fits_witness:
  "(1000::int) \<le> 1744 \<and> maxScroll 1000 1744 = 0
   \<and> top_extract (synthesize (step (totalFrames (Fin 2) (Fin 12)) (maxScroll 1000 1744)) 1000 1744 7) = Fin 0"
proof -
  have le: "(1000::int) \<le> 1744" by simp
  from no_scroll_when_page_fits [OF le, where d = "Fin 2" and f = "Fin 12" and cancelled = "\<lambda>b. False"]
  show ?thesis using le by blast
qed

section \<open>Frame count and scroll offsets\<close>

lemma generateFrames_short_page:
  "generateFrames (\<lambda>b. False) (Fin 2) (Fin 12) 1000 1744 = Some (Inl ''extract_area: bad extract area'')"
proof -
  have st: "step (Fin 24) 0 = Fin 0"
    using step_integer_zero [of 24] by simp
  have "extractRejects (top_extract (synthesize (Fin 0) 1000 1744 0)) 1000 1744"
    by (simp add: synthesize_def frameY_zero cropTop_zero extractRejects_def)
  then have "list_ex (\<lambda>fr. extractRejects (top_extract fr) 1000 1744)
      (map (synthesize (Fin 0) 1000 1744) [0..<4])"
    by (simp add: upt_conv_Cons)
  then show ?thesis
    by (simp add: generateFrames_def totalFrames_2_12 maxScroll_def st BATCH_SIZE_def
        generateBatches.simps [of _ _ _ 24 0])
qed

lemma generateFrames_endless:
  "duration (Some PosInf) = PosInf \<and> generateFrames (\<lambda>b. False) PosInf (Fin 12) 3618 1744 = None"
  by (simp add: duration_def js_or_def generateFrames_def totalFrames_def)

lemma generateFrames_overflow:
  "generateFrames (\<lambda>b. False) (Fin (2 ^ 600)) (Fin (2 ^ 600)) 3618 1744 = None"
proof -
  have "(2::rat) * 2 ^ 1024 = 2 ^ Suc 1024"
    by (rule power_Suc [symmetric])
  moreover have "(2::rat) ^ 600 * 2 ^ 600 = 2 ^ (600 + 600)"
    by (rule power_add [symmetric])
  moreover have "(2::rat) ^ Suc 1024 \<le> 2 ^ (600 + 600)"
    by (rule power_increasing) simp_all
  ultimately have "(2::rat) * 2 ^ 1024 \<le> 2 ^ 600 * 2 ^ 600"
    by (simp only:)
  then have "js_round (2 ^ 600 * 2 ^ 600) = PosInf"
    by (rule js_round_overflow)
  then have "totalFrames (Fin (2 ^ 600)) (Fin (2 ^ 600)) = PosInf"
    by (simp only: totalFrames_def js_mul.simps Math_round.simps)
  then show ?thesis
    by (simp only: generateFrames_def Let_def jsnum.case)
qed

lemma generateFrames_cancelled:
  "generateFrames (\<lambda>b. True) (Fin 2) (Fin 12) 3618 1744
     = Some (Inr (map (synthesize (step (Fin 24) 1874) 3618 1744) [0..<4], False))"
proof -
  have "\<not> extractRejects (top_extract (synthesize (Fin s) 3618 1744 i)) 3618 1744" for s i
    by (simp add: synthesize_def extract_fits frameY_not_NaN)
  then have "\<not> list_ex (\<lambda>fr. extractRejects (top_extract fr) 3618 1744)
      (map (synthesize (Fin (2866761447585703 / 35184372088832)) 3618 1744) [0..<4])"
    by (simp add: list_ex_iff)
  then show ?thesis
    by (simp add: generateFrames_def totalFrames_2_12 maxScroll_def step_24_1874 BATCH_SIZE_def
        generateBatches.simps [of _ _ _ 24 0])
qed

text \<open>
  C5, amended. For a finite effective duration of at least 1 and a finite effective frame
  rate of at least 12 whose product does not overflow, on a page at least as tall as the
  cutout (both heights pixel counts, their difference below \<open>2 ^ 53\<close>), in a run that is
  not cancelled: \<open>totalFrames\<close> is the product rounded to the nearest integer; \<open>step\<close> is
  \<open>maxScroll / (totalFrames - 1)\<close> when \<open>totalFrames > 1\<close> and 0 otherwise; no extraction
  is rejected and the frames written are those of the indices \<open>0, ..., totalFrames - 1\<close>
  in this order, the frame of index \<open>i\<close> numbered \<open>i + 1\<close> and extracted at
  \<open>round (step * i)\<close> clamped by \<open>max 0 (min y (pageHeight - screenHeight))\<close>, which lies
  between 0 and \<open>pageHeight - screenHeight\<close>. The witness is the request with duration 2
  and frame rate 10 on a page of height 3618 and a cutout of height 1744: the effective
  frame rate is 12, so there are 24 frames, \<open>maxScroll = 1874\<close> and \<open>step\<close> is the
  binary64 value of \<open>1874 / 23\<close>, about 81.48.
\<close>

theorem frames_and_offsets:
  assumes d: "1 \<le> d" and f: "12 \<le> f"
    and fin: "totalFrames (Fin d) (Fin f) = Fin t"
    and nc: "\<forall>b. \<not> cancelled b"
    and fits: "screenHeight \<le> pageHeight" and safe: "pageHeight - screenHeight < 2 ^ 53"
  shows "t = of_int \<lfloor>round64 (d * f) + 1 / 2\<rfloor>
    \<and> step (Fin t) (maxScroll pageHeight screenHeight)
        = (if 1 < t
           then js_div (Fin (of_int (max 0 (pageHeight - screenHeight)))) (js_sub (Fin t) (Fin 1))
           else Fin 0)
    \<and> generateFrames cancelled (Fin d) (Fin f) pageHeight screenHeight
        = Some (Inr (map (\<lambda>i. Frame (i + 1)
                            (Math_max (Fin 0)
                               (Math_min
                                  (Math_round (js_add (Fin 0)
                                     (js_mul (step (Fin t) (maxScroll pageHeight screenHeight))
                                        (Fin (of_nat i)))))
                                  (Fin (of_int (pageHeight - screenHeight))))))
                       [0..<nat \<lfloor>t\<rfloor>], True))
    \<and> (\<forall>y. y \<noteq> NaN
          \<longrightarrow> (\<exists>v. cropTop y pageHeight screenHeight = Fin v \<and> 0 \<le> v
                    \<and> v \<le> of_int (pageHeight - screenHeight)))"
proof (intro conjI allI impI)
  have pos: "0 < d * f" using d f by (simp add: zero_less_mult_iff)
  from fin have "Math_round (js_round (d * f)) = Fin t"
    by (simp add: totalFrames_def)
  then have "js_round (d * f) = Fin (round64 (d * f))"
    using pos by (auto simp: js_round_def Let_def abs_of_pos split: if_splits)
  with fin show t: "t = of_int \<lfloor>round64 (d * f) + 1 / 2\<rfloor>"
    by (simp add: totalFrames_def)
  show "step (Fin t) (maxScroll pageHeight screenHeight)
        = (if 1 < t
           then js_div (Fin (of_int (max 0 (pageHeight - screenHeight)))) (js_sub (Fin t) (Fin 1))
           else Fin 0)"
    by (simp add: step_def maxScroll_def)
  define n where "n = \<lfloor>round64 (d * f) + 1 / 2\<rfloor>"
  have tn: "t = of_int n"
    using t by (simp add: n_def)
  have syn: "synthesize st pageHeight screenHeight
      = (\<lambda>i. Frame (i + 1)
                (Math_max (Fin 0)
                   (Math_min (Math_round (js_add (Fin 0) (js_mul st (Fin (of_nat i)))))
                      (Fin (of_int (pageHeight - screenHeight))))))" for st
    by (rule ext) (simp add: synthesize_def cropTop_def frameY_def)
  have "generateFrames cancelled (Fin d) (Fin f) pageHeight screenHeight
      = Some (Inr (map (synthesize (step (Fin (of_int n)) (maxScroll pageHeight screenHeight))
                          pageHeight screenHeight) [0..<nat n], True))"
    using fin nc fits safe unfolding tn by (rule generateFrames_all)
  then show "generateFrames cancelled (Fin d) (Fin f) pageHeight screenHeight
        = Some (Inr (map (\<lambda>i. Frame (i + 1)
                            (Math_max (Fin 0)
                               (Math_min
                                  (Math_round (js_add (Fin 0)
                                     (js_mul (step (Fin t) (maxScroll pageHeight screenHeight))
                                        (Fin (of_nat i)))))
                                  (Fin (of_int (pageHeight - screenHeight))))))
                       [0..<nat \<lfloor>t\<rfloor>], True))"
    unfolding syn tn by simp
next
  fix y :: jsnum
  assume "y \<noteq> NaN"
  then show "\<exists>v. cropTop y pageHeight screenHeight = Fin v \<and> 0 \<le> v
             \<and> v \<le> of_int (pageHeight - screenHeight)"
    using fits by (rule cropTop_clamped)
qed

theorem frames_and_offsets_witness:
  "duration (Some (Fin 2)) = Fin 2 \<and> fps (Some (Fin 10)) = Fin 12
   \<and> totalFrames (Fin 2) (Fin 12) = Fin 24
   \<and> maxScroll 3618 1744 = 1874
   \<and> step (Fin 24) (maxScroll 3618 1744) = Fin (2866761447585703 / 35184372088832)
   \<and> generateFrames (\<lambda>b. False) (Fin 2) (Fin 12) 3618 1744
       = Some (Inr (map (\<lambda>i. Frame (i + 1)
                           (Math_max (Fin 0)
                              (Math_min
                                 (Math_round (js_add (Fin 0)
                                    (js_mul (Fin (2866761447585703 / 35184372088832)) (Fin (of_nat i)))))
                                 (Fin 1874))))
                      [0..<24], True))"
proof -
  have m: "maxScroll 3618 1744 = 1874"
    by (simp add: maxScroll_def)
  have df: "duration (Some (Fin 2)) = Fin 2" "fps (Some (Fin 10)) = Fin 12"
    by (simp_all add: duration_def fps_def js_or_def)
  have d: "(1::rat) \<le> 2" and f: "(12::rat) \<le> 12" and nc: "\<forall>b. \<not> (\<lambda>b. False) b"
    and fits: "(1744::int) \<le> 3618" and safe: "(3618::int) - 1744 < 2 ^ 53"
    by simp_all
  note frames = frames_and_offsets [OF d f totalFrames_2_12 nc fits safe,
      THEN conjunct2, THEN conjunct2, THEN conjunct1]
  show ?thesis
    using frames totalFrames_2_12 df by (simp add: m step_24_1874)
qed

text \<open>
  The scenario of 20 frames for duration 2 and frame rate 10 does not occur: the frame
  rate is raised to 12 before \<open>totalFrames\<close> is computed. Nor does the statement hold
  without its conditions: on a page of height 1000, shorter than the cutout of height
  1744, the first extraction is rejected and no frame is emitted, the job ending in the
  \<open>catch\<close> block; with the duration \<open>Infinity\<close>, or with a duration and a frame rate
  of \<open>2 ^ 600\<close> whose product overflows, the loop over the batches does not end; and in
  a run that is cancelled during the first batch 4 frames are written and not 24.
\<close>

theorem frame_count_counterexamples:
  "totalFrames (duration (Some (Fin 2))) (fps (Some (Fin 10))) = Fin 24
   \<and> totalFrames (duration (Some (Fin 2))) (fps (Some (Fin 10))) \<noteq> Fin 20
   \<and> generateFrames (\<lambda>b. False) (Fin 2) (Fin 12) 1000 1744
       = Some (Inl ''extract_area: bad extract area'')
   \<and> duration (Some PosInf) = PosInf
   \<and> generateFrames (\<lambda>b. False) PosInf (Fin 12) 3618 1744 = None
   \<and> generateFrames (\<lambda>b. False) (Fin (2 ^ 600)) (Fin (2 ^ 600)) 3618 1744 = None
   \<and> generateFrames (\<lambda>b. True) (Fin 2) (Fin 12) 3618 1744
       = Some (Inr (map (synthesize (step (Fin 24) 1874) 3618 1744) [0..<4], False))"
proof -
  have "totalFrames (duration (Some (Fin 2))) (fps (Some (Fin 10))) = Fin 24"
    using totalFrames_2_12 by (simp add: duration_def fps_def js_or_def)
  moreover from this have "totalFrames (duration (Some (Fin 2))) (fps (Some (Fin 10))) \<noteq> Fin 20"
    by simp
  moreover note generateFrames_short_page generateFrames_endless [THEN conjunct1]
    generateFrames_endless [THEN conjunct2] generateFrames_overflow generateFrames_cancelled
  ultimately show ?thesis
    by (intro conjI)
qed

section \<open>Cleanup when the directory cannot be removed\<close>

lemma unlinkUploaded_calls: "snd (unlinkUploaded e fl fs) = map (\<lambda>file. CallUnlink (file_path file)) fl"
  by (induction fl arbitrary: fs) (simp_all add: Let_def case_prod_beta)

lemma cleanup_unlinks_after_rimraf:
  "\<not> rimraf_rejects e dir \<Longrightarrow>
     performJobCleanup e \<lparr>sessionDir = Some dir, timestamp = ts, uploadedFiles = Some fl\<rparr> fs
       = (True, fst (unlinkUploaded e fl (rimraf dir fs)),
          CallRimraf dir # snd (unlinkUploaded e fl (rimraf dir fs)))"
  by (simp add: performJobCleanup_def split: prod.splits)

lemma quiet_cleanup:
  assumes "\<And>p. \<not> rimraf_rejects e p" "\<And>p. \<not> unlink_rejects e p"
  shows "fst (snd (performJobCleanup e
            \<lparr>sessionDir = Some dir, timestamp = ts, uploadedFiles = Some fl\<rparr> fs))
         = rimraf dir fs - file_path ` set fl"
proof -
  have "fst (unlinkUploaded e fl fs') = fs' - file_path ` set fl" for fs'
    using assms(2) by (induction fl arbitrary: fs') (auto simp: Let_def case_prod_beta)
  then show ?thesis
    using assms(1) by (simp add: performJobCleanup_def case_prod_beta)
qed

text \<open>
  C9. The specification asks for an unlink of every uploaded file whether or not the
  removal of the working directory succeeds. When \<open>rimraf\<close> rejects, \<open>performJobCleanup\<close> returns
  \<open>false\<close> having called nothing else: the uploaded page is still there and no unlink
  was attempted.
\<close>

theorem cleanup_stops_when_rimraf_rejects:
  "performJobCleanup ((quietEnv (Decoded opaquePixel) (780, 3618))\<lparr>rimraf_rejects := (\<lambda>p. True)\<rparr>)
     \<lparr>sessionDir = Some (SessionDir 1758349793301), timestamp = 1758349793301,
      uploadedFiles = Some [\<lparr>file_path = Upload ''page'', file_kind = ''page''\<rparr>]\<rparr>
     {SessionDir 1758349793301, Upload ''page''}
   = (False, {SessionDir 1758349793301, Upload ''page''}, [CallRimraf (SessionDir 1758349793301)])"
  by (auto simp: performJobCleanup_def quietEnv_def rimrafRejected_def)

section \<open>Jobs rejected after the working directory exists\<close>

lemma detect_opaquePixel: "detectTransparentCutout (Decoded opaquePixel) = Inr (Cutout 0 0 0 0)"
  by (simp add: detectTransparentCutout_def opaquePixel_def boundingBox_def scanRow_def
      scanPixel_def isTransparent_def)

lemma detect_rgbPixel:
  "detectTransparentCutout (Decoded rgbPixel)
     = Inl (Error ''Failed to detect transparent cutout: Frame image must have an alpha channel (RGBA)'')"
  by (simp add: detectTransparentCutout_def rgbPixel_def failedToDetect_def)

lemma round64_240: "round64 240 = 240"
  by code_simp

lemma totalFrames_8_30: "totalFrames (Fin 8) (Fin 30) = Fin 240"
proof -
  have "js_round 240 = Fin 240"
    by (simp add: js_round_small round64_240)
  moreover have "\<lfloor>240 + 1 / 2 :: rat\<rfloor> = 240"
    by (simp add: floor_eq_iff)
  ultimately show ?thesis
    by (simp add: totalFrames_def)
qed

lemma detect_wideFrame: "detectTransparentCutout (Decoded wideFrame) = Inr (Cutout 0 0 100 4)"
proof -
  have tr: "isTransparent wideFrame x y = (x < 100)" if "0 \<le> x" "x < 5000" "0 \<le> y" "y < 4" for x y
    unfolding wideFrame_def using that by (rule isTransparent_frameWith)
  have "detectTransparentCutout (Decoded wideFrame)
      = Inr (Cutout 0 0 (2 * ((99 - 0 + 1) div 2)) (2 * ((3 - 0 + 1) div 2)))"
  proof (rule detect_box)
    show "\<forall>x y. 0 \<le> x \<and> x < width wideFrame \<and> 0 \<le> y \<and> y < height wideFrame
             \<and> isTransparent wideFrame x y
            \<longrightarrow> 0 \<le> x \<and> x \<le> 99 \<and> 0 \<le> y \<and> y \<le> 3"
      by (auto simp: wideFrame_def frameWith_sel tr [unfolded wideFrame_def])
  qed (simp_all add: tr, simp_all add: wideFrame_def frameWith_sel)
  then show ?thesis by simp
qed

lemma renderError_other: "\<not> dimensionError (renderError e req ts details fs)"
  by (simp add: renderError_def dimensionError_def case_prod_beta)

lemma deliver_other: "\<not> dimensionError (deliver e cleanupData frames f fs)"
  by (simp add: deliver_def dimensionError_def case_prod_beta)

lemma replyJson_other: "\<not> dimensionError (replyJson status (ErrorMessage message) fs)"
  by (simp add: replyJson_def dimensionError_def)

lemma encode_other:
  "encode e req cleanupData ts d f pageHeight screenHeight fs = Some out \<Longrightarrow> \<not> dimensionError out"
  by (auto simp: encode_def renderError_other deliver_other Let_def
      split: option.splits sum.splits prod.splits)

text \<open>
  C1. The specification asks for one cleanup, and no working directory or upload left,
  after every terminal state. A page wider than the limit, a frame with no transparent pixel
  and a frame without alpha channel each end the job with a response 400 after the
  working directory was made: no cleanup runs, and the directory and both uploads
  remain.
\<close>

theorem rejected_jobs_keep_their_files:
  "render (quietEnv (Decoded opaquePixel) (5000, 3618)) frameAndPage {Upload ''frame'', Upload ''page''}
     = Some \<lparr>response = Some (Response 400 (DimensionsTooLarge 4096 4096 5000 3618)),
             files = {SessionDir 1758349793301, Upload ''frame'', Upload ''page''}, cleanups = []\<rparr>
   \<and> render (quietEnv (Decoded opaquePixel) (780, 3618)) frameAndPage {Upload ''frame'', Upload ''page''}
     = Some \<lparr>response = Some (Response 400
                (ErrorMessage ''Could not detect a transparent cutout in the frame image.'')),
             files = {SessionDir 1758349793301, Upload ''frame'', Upload ''page''}, cleanups = []\<rparr>
   \<and> render (quietEnv (Decoded rgbPixel) (780, 3618)) frameAndPage {Upload ''frame'', Upload ''page''}
     = Some \<lparr>response = Some (Response 400
                (ErrorMessage ''Auto-detection failed: Failed to detect transparent cutout: Frame image must have an alpha channel (RGBA)'')),
             files = {SessionDir 1758349793301, Upload ''frame'', Upload ''page''}, cleanups = []\<rparr>"
  by (simp add: render_def quietEnv_def frameAndPage_def replyJson_def MAX_DIMENSION_def
      detect_opaquePixel detect_rgbPixel)

section \<open>The dimension limit\<close>

lemma dimension_error_only_for_page:
  assumes "page_upload req = Some pagePath" and "mkdir_rejects e = None"
    and "page_metadata e = Inr (pageWidth, pageHeight)"
    and ok: "pageWidth \<le> 4096 \<and> pageHeight \<le> 4096" and r: "render e req fs = Some out"
  shows "\<not> dimensionError out"
proof -
  let ?fs1 = "insert (SessionDir (now e)) fs"
  let ?frame = "frame_input e (case frame_upload req of Some p \<Rightarrow> Upload p | None \<Rightarrow> DefaultFramePath)"
  show ?thesis
  proof (cases "detectTransparentCutout ?frame")
    case (Inl err)
    then show ?thesis
      using assms ok r
      by (cases err) (auto simp: render_def MAX_DIMENSION_def Let_def replyJson_other)
  next
    case (Inr cutout)
    show ?thesis
    proof (cases "cwidth cutout = 0 \<or> cheight cutout = 0")
      case True
      then show ?thesis
        using assms ok r Inr
        by (auto simp: render_def MAX_DIMENSION_def Let_def replyJson_other)
    next
      case False
      then show ?thesis
        using assms ok r Inr
        by (auto simp: render_def MAX_DIMENSION_def Let_def replyJson_other
            split: if_splits sum.splits dest: encode_other)
    qed
  qed
qed

lemma oversize_page_rejected:
  assumes "page_upload req = Some pagePath" and "mkdir_rejects e = None"
    and "page_metadata e = Inr (pageWidth, pageHeight)"
    and "pageWidth > 4096 \<or> pageHeight > 4096"
  shows "render e req fs
           = Some \<lparr>response = Some (Response 400 (DimensionsTooLarge 4096 4096 pageWidth pageHeight)),
                   files = insert (SessionDir (now e)) fs, cleanups = []\<rparr>"
  using assms by (simp add: render_def replyJson_def MAX_DIMENSION_def Let_def)

lemma wide_page_rejected:
  "render (quietEnv (Decoded wideFrame) (5000, 200)) frameAndPage {Upload ''frame'', Upload ''page''}
     = Some \<lparr>response = Some (Response 400 (DimensionsTooLarge 4096 4096 5000 200)),
             files = {SessionDir 1758349793301, Upload ''frame'', Upload ''page''}, cleanups = []\<rparr>"
  using oversize_page_rejected [of frameAndPage "''page''" "quietEnv (Decoded wideFrame) (5000, 200)"
      5000 200 "{Upload ''frame'', Upload ''page''}"]
  by (simp add: frameAndPage_def quietEnv_def)

lemma generateFrames_wide:
  "generateFrames (\<lambda>b. False) (Fin 8) (Fin 30) 200 4
     = Some (Inr (map (synthesize (step (Fin 240) 196) 200 4) [0..<240], True))"
  using generateFrames_all [of "Fin 8" "Fin 30" 240 "\<lambda>b. False" 4 200]
  by (simp add: totalFrames_8_30 maxScroll_def)

text \<open>
  C2. The specification asks that the page and the frame each be within the limit of
  4096 and that an input over the limit be rejected up front. The handler compares only
  the page with \<open>MAX_DIMENSION\<close>: a page 5000 pixels wide is answered 400 with the limit
  and its dimensions, but a frame 5000 pixels wide is decoded whole by detection, used
  as the canvas of every frame, and the job ends with the video delivered.
\<close>

theorem oversize_frame_accepted:
  "width wideFrame > MAX_DIMENSION
   \<and> render (quietEnv (Decoded wideFrame) (5000, 200)) frameAndPage {Upload ''frame'', Upload ''page''}
     = Some \<lparr>response = Some (Response 400 (DimensionsTooLarge 4096 4096 5000 200)),
             files = {SessionDir 1758349793301, Upload ''frame'', Upload ''page''}, cleanups = []\<rparr>
   \<and> render (quietEnv (Decoded wideFrame) (100, 200)) frameAndPage {Upload ''frame'', Upload ''page''}
     = Some \<lparr>response = Some (Response 200
               (VideoFile (map (synthesize (step (Fin 240) 196) 200 4) [0..<240]) (Fin 30))),
             files = {}, cleanups = [''success'']\<rparr>"
proof -
  let ?e = "quietEnv (Decoded wideFrame) (100, 200)"
  let ?cd = "\<lparr>sessionDir = Some (SessionDir 1758349793301), timestamp = 1758349793301,
              uploadedFiles = Some (uploadedRefs frameAndPage)\<rparr>"
  have w: "width wideFrame > MAX_DIMENSION"
    by (simp add: wideFrame_def frameWith_sel MAX_DIMENSION_def)
  have df: "duration None = Fin 8" "fps None = Fin 30"
    by (simp_all add: duration_def fps_def js_or_def)
  have g: "generateFrames (\<lambda>b. False) (Fin 8) (Fin 30) 200 4
      = Some (Inr (map (synthesize (step (Fin 240) 196) 200 4) [0..<240], True))"
    by (rule generateFrames_wide)
  have q: "\<not> rimraf_rejects ?e p" "\<not> unlink_rejects ?e p" for p
    by (simp_all add: quietEnv_def)
  have c: "fst (snd (performJobCleanup ?e ?cd fs))
      = rimraf (SessionDir 1758349793301) fs - {Upload ''frame'', Upload ''page''}" for fs
    using quiet_cleanup [of ?e "SessionDir 1758349793301" 1758349793301 "uploadedRefs frameAndPage" fs] q
    by (simp add: uploadedRefs_def frameAndPage_def)
  have d: "deliver ?e ?cd frames f fs
      = \<lparr>response = Some (Response 200 (VideoFile frames f)),
         files = rimraf (SessionDir 1758349793301) fs - {Upload ''frame'', Upload ''page''},
         cleanups = [''success'']\<rparr>" for frames f fs
    using c [of fs] by (simp add: deliver_def case_prod_beta)
  define frames where "frames = map (synthesize (step (Fin 240) 196) 200 4) [0..<240]"
  define written where "written = insert (InSession 1758349793301 OutputMp4)
      (insert (SessionDir 1758349793301) {Upload ''frame'', Upload ''page''}
       \<union> (\<lambda>fr. InSession 1758349793301 (FramePng (fileNumber fr))) ` set frames)"
  have r: "rimraf (SessionDir 1758349793301) written - {Upload ''frame'', Upload ''page''} = {}"
    unfolding written_def by (auto simp: rimraf_def inside_def)
  have rej: "synthesis_rejects ?e = None" "ffmpeg_rejects ?e = None"
    by (simp_all add: quietEnv_def)
  have "render ?e frameAndPage {Upload ''frame'', Upload ''page''}
      = encode ?e frameAndPage ?cd 1758349793301 (Fin 8) (Fin 30) 200 4
          (insert (SessionDir 1758349793301) {Upload ''frame'', Upload ''page''})"
    by (simp add: render_def quietEnv_def frameAndPage_def df detect_wideFrame MAX_DIMENSION_def)
  also have "\<dots> = Some (deliver ?e ?cd frames (Fin 30) written)"
    unfolding encode_def g frames_def [symmetric] written_def
    by (simp only: rej option.case sum.case prod.case Let_def)
  also have "\<dots> = Some \<lparr>response = Some (Response 200 (VideoFile frames (Fin 30))),
             files = {}, cleanups = [''success'']\<rparr>"
    unfolding d r by (rule refl)
  finally have "render ?e frameAndPage {Upload ''frame'', Upload ''page''}
      = Some \<lparr>response = Some (Response 200 (VideoFile frames (Fin 30))),
             files = {}, cleanups = [''success'']\<rparr>" .
  then have "render ?e frameAndPage {Upload ''frame'', Upload ''page''}
      = Some \<lparr>response = Some (Response 200
               (VideoFile (map (synthesize (step (Fin 240) 196) 200 4) [0..<240]) (Fin 30))),
             files = {}, cleanups = [''success'']\<rparr>"
    unfolding frames_def .
  then show ?thesis using w wide_page_rejected by simp
qed

end
